theory Spec2Isabelle
  imports Complex_Main
begin

section \<open>Common modelling devices\<close>

text \<open>
  The C++ sources work on \<^verbatim>\<open>double\<close> buffers. Values are modelled as \<^typ>\<open>real\<close>
  (exact arithmetic); sizes, ranks, vertex IDs and value dimensions, which the source
  keeps in \<^verbatim>\<open>int\<close> or \<^verbatim>\<open>size_t\<close> and which are never negative in a well-formed
  call, are \<^typ>\<open>nat\<close>. Every way in which a call can leave the normal path is a value of
  \<open>error\<close>: a failed assertion, an access outside a buffer, an integer division by
  zero, a blocking receive with no message posted, and a transport message whose
  length differs from the length asked for. Where the rounding of \<^verbatim>\<open>double\<close> operations
  decides a property, the rounded values are written down as rationals and their
  distance to the exact values is proved.
\<close>

datatype error = AssertionFailed | OutOfBounds | DivisionByZero | WouldBlock | SizeMismatch

definition andThen :: "error + 'a \<Rightarrow> ('a \<Rightarrow> error + 'b) \<Rightarrow> error + 'b" where
  "andThen m f = (case m of Inl e \<Rightarrow> Inl e | Inr x \<Rightarrow> f x)"

text \<open>
  Modelled from the spec: the macros \<^verbatim>\<open>P_ASSERT\<close> and \<^verbatim>\<open>PRECICE_ASSERT\<close> are not part of
  the sources at hand; the spec says that a violated precondition aborts.
\<close>

definition P_ASSERT :: "bool \<Rightarrow> error + unit" where
  "P_ASSERT c = (if c then Inr () else Inl AssertionFailed)"

text \<open>A counted \<^verbatim>\<open>for\<close> loop over the indices in the list, stopping at the first error.\<close>

fun for_loop :: "nat list \<Rightarrow> (nat \<Rightarrow> 's \<Rightarrow> error + 's) \<Rightarrow> 's \<Rightarrow> error + 's" where
  "for_loop [] body s = Inr s"
| "for_loop (i # is) body s = andThen (body i s) (for_loop is body)"

text \<open>Unchecked element access of the source: outside the buffer it is an error.\<close>

definition read_at :: "'a list \<Rightarrow> nat \<Rightarrow> error + 'a" where
  "read_at xs i = (if i < length xs then Inr (xs ! i) else Inl OutOfBounds)"

definition write_at :: "'a list \<Rightarrow> nat \<Rightarrow> 'a \<Rightarrow> error + 'a list" where
  "write_at xs i x = (if i < length xs then Inr (xs[i := x]) else Inl OutOfBounds)"

text \<open>The compound assignment \<^verbatim>\<open>xs[i] += x\<close>.\<close>

definition add_at :: "real list \<Rightarrow> nat \<Rightarrow> real \<Rightarrow> error + real list" where
  "add_at xs i x = (if i < length xs then Inr (xs[i := xs ! i + x]) else Inl OutOfBounds)"

text \<open>\<^verbatim>\<open>std::vector::resize\<close>: keeps a prefix, fills new entries with the given value.\<close>

definition resize :: "'a list \<Rightarrow> nat \<Rightarrow> 'a \<Rightarrow> 'a list" where
  "resize xs n z = take n xs @ replicate (n - length xs) z"

section \<open>Meshes\<close>

text \<open>
  A vertex carries its local ID and its three raw coordinates (\<^verbatim>\<open>rawCoords()\<close>, a
  \<^verbatim>\<open>std::array<double, 3>\<close>). A data channel is a dense vector with its value dimension.
\<close>

record Vertex =
  getID :: nat
  rawCoords :: "real \<times> real \<times> real"

record Data =
  valuesOf :: "real list"
  getDimensions :: nat

text \<open>
  The vertex distribution is a \<^verbatim>\<open>std::map<int, std::vector<int>>\<close> read with
  \<^verbatim>\<open>operator[]\<close>, which yields the empty vector for a rank without an entry: a total
  function from ranks to lists of global vertex indices.
\<close>

record Mesh =
  vertices :: "Vertex list"
  data :: "nat \<Rightarrow> Data option"
  getVertexDistribution :: "nat \<Rightarrow> nat list"
  getGlobalNumberOfVertices :: nat

text \<open>\<^verbatim>\<open>mesh->data(id)\<close>: a data ID the mesh does not hold is a precondition failure.\<close>

definition mesh_data :: "Mesh \<Rightarrow> nat \<Rightarrow> error + Data" where
  "mesh_data m dataID = (case data m dataID of None \<Rightarrow> Inl AssertionFailed | Some d \<Rightarrow> Inr d)"

section \<open>Nearest-neighbor mapping (NearestNeighborMapping.cpp)\<close>

datatype Constraint = CONSISTENT | CONSERVATIVE | SCALED_CONSISTENT

record NearestNeighborMapping =
  getConstraint :: Constraint
  input_mesh :: Mesh
  output_mesh :: Mesh
  vertexIndices :: "nat list"
  hasComputedMapping :: bool

text \<open>
  The R-tree is not part of the sources at hand. Its query
  \<^verbatim>\<open>rtree->query(nearest(coords, 1), out)\<close> is a parameter \<open>nearest\<close>: given the vertices
  indexed and the query point, the list of positions handed to the output iterator.
  The output iterator stores \<^verbatim>\<open>vertices()[val].getID()\<close> at position \<open>i\<close>.
\<close>

definition indexVertices ::
  "(Vertex list \<Rightarrow> real \<times> real \<times> real \<Rightarrow> nat list) \<Rightarrow> Vertex list \<Rightarrow> Vertex list \<Rightarrow>
   nat list \<Rightarrow> error + nat list" where
  "indexVertices nearest searched queried indices =
     (let verticesSize = length queried in
      for_loop [0..<verticesSize]
        (\<lambda>i idx.
           for_loop (nearest searched (rawCoords (queried ! i)))
             (\<lambda>val idx'. andThen (read_at searched val) (\<lambda>w. write_at idx' i (getID w)))
             idx)
        (resize indices verticesSize 0))"

definition computeMapping ::
  "(Vertex list \<Rightarrow> real \<times> real \<times> real \<Rightarrow> nat list) \<Rightarrow> NearestNeighborMapping \<Rightarrow>
   error + NearestNeighborMapping" where
  "computeMapping nearest m =
     (if getConstraint m = CONSISTENT then
        andThen (indexVertices nearest (vertices (input_mesh m)) (vertices (output_mesh m)) (vertexIndices m))
          (\<lambda>idx. Inr (m\<lparr>vertexIndices := idx, hasComputedMapping := True\<rparr>))
      else
        andThen (P_ASSERT (getConstraint m = CONSERVATIVE))
          (\<lambda>_. andThen (indexVertices nearest (vertices (output_mesh m)) (vertices (input_mesh m)) (vertexIndices m))
             (\<lambda>idx. Inr (m\<lparr>vertexIndices := idx, hasComputedMapping := True\<rparr>))))"

text \<open>The two loop nests of \<^verbatim>\<open>map\<close>.\<close>

definition mapConsistent :: "nat list \<Rightarrow> nat \<Rightarrow> nat \<Rightarrow> real list \<Rightarrow> real list \<Rightarrow> error + real list" where
  "mapConsistent indices outSize valueDimensions inputValues outputValues =
     for_loop [0..<outSize]
       (\<lambda>i out.
          andThen (read_at indices i)
            (\<lambda>vi. let inputIndex = vi * valueDimensions in
               for_loop [0..<valueDimensions]
                 (\<lambda>dim out'. andThen (read_at inputValues (inputIndex + dim))
                    (\<lambda>x. write_at out' ((i * valueDimensions) + dim) x))
                 out))
       outputValues"

definition mapConservative :: "nat list \<Rightarrow> nat \<Rightarrow> nat \<Rightarrow> real list \<Rightarrow> real list \<Rightarrow> error + real list" where
  "mapConservative indices inSize valueDimensions inputValues outputValues =
     for_loop [0..<inSize]
       (\<lambda>i out.
          andThen (read_at indices i)
            (\<lambda>vi. let outputIndex = vi * valueDimensions in
               for_loop [0..<valueDimensions]
                 (\<lambda>dim out'. andThen (read_at inputValues ((i * valueDimensions) + dim))
                    (\<lambda>x. add_at out' (outputIndex + dim) x))
                 out))
       outputValues"

text \<open>
  \<^verbatim>\<open>NearestNeighborMapping::map\<close>. The result is the new content of the output data
  channel, the only object the function changes. The three assertions come first; the
  second and third divide by the value dimension.
\<close>

definition map_nn :: "NearestNeighborMapping \<Rightarrow> nat \<Rightarrow> nat \<Rightarrow> error + real list" where
  "map_nn m inputDataID outputDataID =
     andThen (mesh_data (input_mesh m) inputDataID) (\<lambda>inData.
     andThen (mesh_data (output_mesh m) outputDataID) (\<lambda>outData.
       let inputValues = valuesOf inData;
           outputValues = valuesOf outData;
           valueDimensions = getDimensions inData
       in
       andThen (P_ASSERT (valueDimensions = getDimensions outData)) (\<lambda>_.
       if valueDimensions = 0 then Inl DivisionByZero
       else
       andThen (P_ASSERT (length inputValues div valueDimensions = length (vertices (input_mesh m)))) (\<lambda>_.
       andThen (P_ASSERT (length outputValues div valueDimensions = length (vertices (output_mesh m)))) (\<lambda>_.
       if getConstraint m = CONSISTENT then
         mapConsistent (vertexIndices m) (length (vertices (output_mesh m))) valueDimensions
           inputValues outputValues
       else
         andThen (P_ASSERT (getConstraint m = CONSERVATIVE)) (\<lambda>_.
           mapConservative (vertexIndices m) (length (vertices (input_mesh m))) valueDimensions
             inputValues outputValues))))))"

section \<open>Gather/scatter communication (GatherScatterCommunication.cpp)\<close>

text \<open>
  The process-wide state \<^verbatim>\<open>utils::MasterSlave\<close>: the two mode flags, the rank
  (\<open>-1\<close> while unset), the number of ranks, and whether the intra-participant
  communication object exists and is connected.
\<close>

record MasterSlave =
  isMaster :: bool
  isSlave :: bool
  getRank :: int
  getSize :: nat
  communicationSet :: bool
  communicationConnected :: bool

text \<open>
  The two transport layers are outside the sources at hand; the spec describes them
  as reliable ordered channels with \<^verbatim>\<open>send(buf, n, rank)\<close> and \<^verbatim>\<open>receive(buf, n, rank)\<close>.
  They are queues of messages, oldest first: between each worker rank and rank 0 in
  both directions (the intra-participant link), and to and from rank 0 of the other
  participant (the inter-participant link \<^verbatim>\<open>_com\<close>).
\<close>

record Links =
  toMaster :: "nat \<Rightarrow> real list list"
  toSlave :: "nat \<Rightarrow> real list list"
  toPeer :: "real list list"
  fromPeer :: "real list list"

text \<open>Sending \<open>n\<close> items from a buffer reads the first \<open>n\<close> entries of the buffer.\<close>

definition com_send :: "real list \<Rightarrow> nat \<Rightarrow> error + real list" where
  "com_send buf n = (if n \<le> length buf then Inr (take n buf) else Inl OutOfBounds)"

text \<open>
  Receiving \<open>n\<close> items takes the oldest message of the queue and writes it over the
  first \<open>n\<close> entries of the buffer; the result is the buffer and the rest of the queue.
\<close>

definition com_receive :: "real list list \<Rightarrow> real list \<Rightarrow> nat \<Rightarrow> error + (real list \<times> real list list)" where
  "com_receive queue buf n =
     (case queue of
        [] \<Rightarrow> Inl WouldBlock
      | msg # rest \<Rightarrow>
          if length msg \<noteq> n then Inl SizeMismatch
          else if n \<le> length buf then Inr (msg @ drop n buf, rest)
          else Inl OutOfBounds)"

text \<open>
  The loop nest that \<^verbatim>\<open>send\<close> runs once for the coordinator's own data and once per
  worker: \<^verbatim>\<open>global[dist[i] * valueDimension + j] += items[i * valueDimension + j]\<close>.
\<close>

definition gatherSlice :: "nat list \<Rightarrow> nat \<Rightarrow> real list \<Rightarrow> real list \<Rightarrow> error + real list" where
  "gatherSlice indices valueDimension items globalItems =
     for_loop [0..<length indices]
       (\<lambda>i g.
          for_loop [0..<valueDimension]
            (\<lambda>j g'. andThen (read_at items (i * valueDimension + j))
               (\<lambda>x. add_at g' (indices ! i * valueDimension + j) x))
            g)
       globalItems"

text \<open>
  The loop nest of \<^verbatim>\<open>receive\<close>:
  \<^verbatim>\<open>items[i * valueDimension + j] = global[dist[i] * valueDimension + j]\<close>.
\<close>

definition scatterSlice :: "nat list \<Rightarrow> nat \<Rightarrow> real list \<Rightarrow> real list \<Rightarrow> error + real list" where
  "scatterSlice indices valueDimension globalItems items =
     for_loop [0..<length indices]
       (\<lambda>i it.
          for_loop [0..<valueDimension]
            (\<lambda>j it'. andThen (read_at globalItems (indices ! i * valueDimension + j))
               (\<lambda>x. write_at it' (i * valueDimension + j) x))
            it)
       items"

definition send_asserts :: "MasterSlave \<Rightarrow> error + unit" where
  "send_asserts ms =
     andThen (P_ASSERT (isSlave ms \<or> isMaster ms)) (\<lambda>_.
     andThen (P_ASSERT (communicationSet ms)) (\<lambda>_.
     andThen (P_ASSERT (communicationConnected ms)) (\<lambda>_.
     andThen (P_ASSERT (getSize ms > 1)) (\<lambda>_.
     P_ASSERT (getRank ms \<noteq> - 1)))))"

text \<open>\<^verbatim>\<open>GatherScatterCommunication::send\<close>; the result is the new state of the links.\<close>

definition send :: "MasterSlave \<Rightarrow> Mesh \<Rightarrow> Links \<Rightarrow> real list \<Rightarrow> nat \<Rightarrow> nat \<Rightarrow> error + Links" where
  "send ms mesh lnk itemsToSend localSize valueDimension =
     andThen (send_asserts ms) (\<lambda>_.
     if isSlave ms then
       (if localSize > 0 then
          andThen (com_send itemsToSend localSize) (\<lambda>msg.
            Inr (lnk\<lparr>toMaster := (toMaster lnk)(nat (getRank ms) := toMaster lnk (nat (getRank ms)) @ [msg])\<rparr>))
        else Inr lnk)
     else
       andThen (P_ASSERT (getRank ms = 0)) (\<lambda>_.
       let vertexDistribution = getVertexDistribution mesh;
           globalSize = getGlobalNumberOfVertices mesh * valueDimension;
           globalItemsToSend = replicate globalSize 0
       in
       andThen (gatherSlice (vertexDistribution 0) valueDimension itemsToSend globalItemsToSend) (\<lambda>g0.
       andThen (for_loop [1..<getSize ms]
          (\<lambda>rankSlave (l, g).
             let slaveSize = length (vertexDistribution rankSlave) * valueDimension in
             if slaveSize > 0 then
               andThen (com_receive (toMaster l rankSlave) (replicate slaveSize 0) slaveSize)
                 (\<lambda>(valuesSlave, rest).
                    andThen (gatherSlice (vertexDistribution rankSlave) valueDimension valuesSlave g)
                      (\<lambda>g'. Inr (l\<lparr>toMaster := (toMaster l)(rankSlave := rest)\<rparr>, g')))
             else Inr (l, g))
          (lnk, g0)) (\<lambda>(l, g).
       andThen (com_send g globalSize) (\<lambda>msg. Inr (l\<lparr>toPeer := toPeer l @ [msg]\<rparr>))))))"

text \<open>
  \<^verbatim>\<open>GatherScatterCommunication::receive\<close>; the result is the new state of the links and
  the new content of the buffer \<^verbatim>\<open>itemsToReceive\<close>.
\<close>

definition receive ::
  "MasterSlave \<Rightarrow> Mesh \<Rightarrow> Links \<Rightarrow> real list \<Rightarrow> nat \<Rightarrow> nat \<Rightarrow> error + (Links \<times> real list)" where
  "receive ms mesh lnk itemsToReceive localSize valueDimension =
     andThen (send_asserts ms) (\<lambda>_.
     andThen
       (if isMaster ms then
          (let globalSize = getGlobalNumberOfVertices mesh * valueDimension in
           andThen (com_receive (fromPeer lnk) (resize [] globalSize 0) globalSize)
             (\<lambda>(g, rest). Inr (lnk\<lparr>fromPeer := rest\<rparr>, g)))
        else Inr (lnk, []))
       (\<lambda>(l0, globalItemsToReceive).
     if isSlave ms then
       (if localSize > 0 then
          andThen (com_receive (toSlave l0 (nat (getRank ms))) itemsToReceive localSize)
            (\<lambda>(items, rest). Inr (l0\<lparr>toSlave := (toSlave l0)(nat (getRank ms) := rest)\<rparr>, items))
        else Inr (l0, itemsToReceive))
     else
       andThen (P_ASSERT (getRank ms = 0)) (\<lambda>_.
       let vertexDistribution = getVertexDistribution mesh in
       andThen (scatterSlice (vertexDistribution 0) valueDimension globalItemsToReceive itemsToReceive)
         (\<lambda>items.
       andThen (for_loop [1..<getSize ms]
          (\<lambda>rankSlave l.
             let slaveSize = length (vertexDistribution rankSlave) * valueDimension in
             if slaveSize > 0 then
               andThen (scatterSlice (vertexDistribution rankSlave) valueDimension
                          globalItemsToReceive (replicate slaveSize 0))
                 (\<lambda>valuesSlave.
                    andThen (com_send valuesSlave slaveSize)
                      (\<lambda>msg. Inr (l\<lparr>toSlave := (toSlave l)(rankSlave := toSlave l rankSlave @ [msg])\<rparr>)))
             else Inr l)
          l0)
         (\<lambda>l. Inr (l, items))))))"

section \<open>P-Greedy solver (PGreedySolver.hpp)\<close>

text \<open>
  An \<^verbatim>\<open>Eigen::MatrixXd\<close> is its two dimensions and its coefficients. Eigen checks
  every block and product against the dimensions by assertion; those checks are
  written out where an operation is used.
\<close>

record Matrix =
  nrows :: nat
  ncols :: nat
  coeff :: "nat \<Rightarrow> nat \<Rightarrow> real"

definition Zero :: "nat \<Rightarrow> nat \<Rightarrow> Matrix" where
  "Zero r c = \<lparr>nrows = r, ncols = c, coeff = (\<lambda>_ _. 0)\<rparr>"

datatype Polynomial = ON | OFF | SEPARATE

text \<open>
  The members of the class. The basis function is a template parameter of the class;
  all the solver uses of it is \<^verbatim>\<open>evaluate\<close>, which is a parameter \<open>evaluate\<close> of the
  functions below.
\<close>

record PGreedySolver =
  centers :: "Vertex list"
  cut :: Matrix
  greedyIDs :: "nat list"
  inSize :: nat
  outSize :: nat
  kernel_eval :: Matrix
  basisMatrix :: Matrix
  powerFunction :: "real list"

definition maxIter :: nat where
  "maxIter = 1000"

definition tolP :: real where
  "tolP = 1 / 10 ^ 10"

text \<open>
  \<^verbatim>\<open>computeSquaredDifference2\<close>: the component differences, each multiplied by its
  axis flag cast to an integer, then the sum of their squares accumulated from 0.
\<close>

definition computeSquaredDifference2 ::
  "real \<times> real \<times> real \<Rightarrow> real \<times> real \<times> real \<Rightarrow> bool \<times> bool \<times> bool \<Rightarrow> real" where
  "computeSquaredDifference2 u v activeAxis =
     (case (u, v, activeAxis) of ((u0, u1, u2), (v0, v1, v2), (a0, a1, a2)) \<Rightarrow>
        let w0 = (u0 - v0) * of_bool a0;
            w1 = (u1 - v1) * of_bool a1;
            w2 = (u2 - v2) * of_bool a2
        in ((0 + w0 * w0) + w1 * w1) + w2 * w2)"

text \<open>
  \<^verbatim>\<open>maxCoeff(&maxIndex)\<close>: Eigen's visitor starts at entry 0 and moves to a later entry
  only if it is strictly greater, so the first maximal entry is returned. An empty
  vector fails Eigen's assertion.
\<close>

definition maxCoeff :: "real list \<Rightarrow> error + (nat \<times> real)" where
  "maxCoeff xs =
     (if xs = [] then Inl AssertionFailed
      else Inr (fold (\<lambda>j (bi, bv). if bv < xs ! j then (j, xs ! j) else (bi, bv))
                  [1..<length xs] (0, xs ! 0)))"

definition select :: "PGreedySolver \<Rightarrow> error + (nat \<times> real)" where
  "select s = maxCoeff (powerFunction s)"

text \<open>
  The expression both \<^verbatim>\<open>updateKernelVector\<close> and \<^verbatim>\<open>buildEvaluationMatrix\<close> evaluate for a
  pair of vertices: the basis function at the square root of
  \<^verbatim>\<open>computeSquaredDifference2(u, v, {{true, true, true}})\<close>.
\<close>

definition kernelValue :: "(real \<Rightarrow> real) \<Rightarrow> Vertex \<Rightarrow> Vertex \<Rightarrow> real" where
  "kernelValue evaluate x y =
     evaluate (sqrt (computeSquaredDifference2 (rawCoords x) (rawCoords y) (True, True, True)))"

text \<open>
  \<^verbatim>\<open>updateKernelVector\<close> writes every entry \<^verbatim>\<open>kernelVector(j)\<close> for the vertices of the
  input mesh; an index outside the vector is an error.
\<close>

definition updateKernelVector :: "(real \<Rightarrow> real) \<Rightarrow> Mesh \<Rightarrow> real list \<Rightarrow> Vertex \<Rightarrow> error + real list" where
  "updateKernelVector evaluate inputMesh kernelVector x =
     for_loop [0..<length (vertices inputMesh)]
       (\<lambda>j kv. write_at kv j (kernelValue evaluate x (vertices inputMesh ! j)))
       kernelVector"

text \<open>
  \<^verbatim>\<open>buildEvaluationMatrix\<close>: the matrix is allocated with \<open>|greedyIDs|\<close> rows and one
  column per output vertex (uninitialised in the source, zeros here; every entry is
  written). \<^verbatim>\<open>inputVertices.at(greedyIDs.at(i))\<close> throws for an index outside the mesh.
\<close>

definition buildEvaluationMatrix ::
  "(real \<Rightarrow> real) \<Rightarrow> Mesh \<Rightarrow> Mesh \<Rightarrow> nat list \<Rightarrow> error + Matrix" where
  "buildEvaluationMatrix evaluate outputMesh inputMesh ids =
     (let inputVertices = vertices inputMesh;
          outputVertices = vertices outputMesh;
          matrixA = Zero (length ids) (length outputVertices)
      in for_loop [0..<length ids]
           (\<lambda>i A.
              andThen (read_at inputVertices (ids ! i)) (\<lambda>u.
                for_loop [0..<length outputVertices]
                  (\<lambda>j A'. Inr (A'\<lparr>coeff := (coeff A')(i := (coeff A' i)
                                  (j := kernelValue evaluate u (outputVertices ! j)))\<rparr>))
                  A))
           matrixA)"

text \<open>
  The locals of the constructor that live across iterations of the selection loop:
  the vector \<^verbatim>\<open>v\<close> and \<^verbatim>\<open>centerBits\<close>, next to the object under construction.
\<close>

record Selection =
  solver :: PGreedySolver
  kernelVector :: "real list"
  centerBits :: "bool list"

text \<open>
  \<^verbatim>\<open>(_basisMatrix.block(j, 0, 1, n) * _basisMatrix.block(i, 0, 1, n).transpose())(0,0)\<close>
\<close>

definition rowDot :: "Matrix \<Rightarrow> nat \<Rightarrow> nat \<Rightarrow> nat \<Rightarrow> error + real" where
  "rowDot B j i n =
     (if j < nrows B \<and> i < nrows B \<and> n \<le> ncols B
      then Inr (sum_list (map (\<lambda>k. coeff B j k * coeff B i k) [0..<n]))
      else Inl AssertionFailed)"

text \<open>One pass of the loop over \<open>j\<close> that updates \<^verbatim>\<open>v(j)\<close> and \<^verbatim>\<open>_powerFunction(j)\<close>.\<close>

definition newtonStep ::
  "Matrix \<Rightarrow> bool list \<Rightarrow> nat \<Rightarrow> nat \<Rightarrow> real \<Rightarrow> nat \<Rightarrow> real list \<times> real list \<Rightarrow>
   error + (real list \<times> real list)" where
  "newtonStep B bits i n sqrtP j vp =
     (case vp of (v, p) \<Rightarrow>
        andThen (read_at bits j) (\<lambda>isCenter.
          if \<not> isCenter then
            andThen (rowDot B j i n) (\<lambda>prod.
            andThen (read_at v j) (\<lambda>vj.
            andThen (write_at v j ((vj - prod) / sqrtP)) (\<lambda>v'.
            andThen (read_at p j) (\<lambda>pj.
            andThen (write_at p j (pj - v' ! j * v' ! j)) (\<lambda>p'. Inr (v', p'))))))
          else Inr (v, p)))"

text \<open>\<^verbatim>\<open>_basisMatrix.col(n) = v\<close>\<close>

definition setCol :: "Matrix \<Rightarrow> nat \<Rightarrow> real list \<Rightarrow> error + Matrix" where
  "setCol B n v =
     (if n < ncols B \<and> length v = nrows B
      then Inr (B\<lparr>coeff := (\<lambda>r c. if c = n \<and> r < nrows B then v ! r else coeff B r c)\<rparr>)
      else Inl AssertionFailed)"

text \<open>\<^verbatim>\<open>triangularView<Eigen::Lower>()\<close>: entries above the diagonal read as zero.\<close>

definition triangularLower :: "Matrix \<Rightarrow> Matrix" where
  "triangularLower M = M\<lparr>coeff := (\<lambda>r c. if c \<le> r then coeff M r c else 0)\<rparr>"

text \<open>
  The three statements that fill row \<open>n\<close> of \<^verbatim>\<open>_cut\<close>: the product of row \<open>i\<close> of the
  basis matrix with the lower triangle of the leading block, negated; the diagonal
  entry set to 1; the row up to the diagonal divided by \<^verbatim>\<open>v(i)\<close>.
\<close>

definition updateCut :: "Matrix \<Rightarrow> Matrix \<Rightarrow> nat \<Rightarrow> nat \<Rightarrow> real list \<Rightarrow> error + Matrix" where
  "updateCut C B n i v =
     (if n < nrows C \<and> n < ncols C \<and> i < nrows B \<and> n \<le> ncols B \<and> i < length v then
        let C1 = C\<lparr>coeff := (\<lambda>r c. if r = n \<and> c < n
                      then - sum_list (map (\<lambda>k. coeff B i k * coeff (triangularLower C) k c) [0..<n])
                      else coeff C r c)\<rparr>;
            C2 = C1\<lparr>coeff := (\<lambda>r c. if r = n \<and> c = n then 1 else coeff C1 r c)\<rparr>;
            C3 = C2\<lparr>coeff := (\<lambda>r c. if r = n \<and> c < n + 1 then coeff C2 r c / v ! i else coeff C2 r c)\<rparr>
        in Inr C3
      else Inl AssertionFailed)"

text \<open>
  The body of the selection loop after the test of \<^verbatim>\<open>pMax\<close> against \<^verbatim>\<open>_tolP\<close>, for
  iteration \<open>n\<close> with selected index \<open>i\<close> and vertex \<open>x\<close>.
\<close>

definition selectCenter ::
  "(real \<Rightarrow> real) \<Rightarrow> Mesh \<Rightarrow> nat \<Rightarrow> nat \<Rightarrow> real \<Rightarrow> Vertex \<Rightarrow> Selection \<Rightarrow> error + Selection" where
  "selectCenter evaluate inputMesh n i pMax x st =
     (let s = solver st;
          ids = greedyIDs s @ [i]
      in
      andThen (updateKernelVector evaluate inputMesh (kernelVector st) x) (\<lambda>v0.
      let sqrtP = sqrt pMax in
      andThen (for_loop [0..<inSize s] (newtonStep (basisMatrix s) (centerBits st) i n sqrtP)
                 (v0, powerFunction s)) (\<lambda>(v, p).
      andThen (write_at (centerBits st) i True) (\<lambda>bits.
      andThen (setCol (basisMatrix s) n v) (\<lambda>B.
      andThen (updateCut (cut s) B n i v) (\<lambda>C.
        Inr \<lparr>solver = s\<lparr>greedyIDs := ids, powerFunction := p, basisMatrix := B, cut := C\<rparr>,
             kernelVector = v, centerBits = bits\<rparr>))))))"

text \<open>
  The selection loop \<^verbatim>\<open>for (int n = 0; n < _maxIter; ++n)\<close>, from iteration \<open>n\<close> on.
  \<^verbatim>\<open>select\<close> and \<^verbatim>\<open>vertices().at(i)\<close> come before the test that leaves the loop.
\<close>

function selectionLoop :: "(real \<Rightarrow> real) \<Rightarrow> Mesh \<Rightarrow> nat \<Rightarrow> Selection \<Rightarrow> error + Selection" where
  "selectionLoop evaluate inputMesh n st =
     (if n < maxIter then
        (case select (solver st) of
           Inl e \<Rightarrow> Inl e
         | Inr (i, pMax) \<Rightarrow>
             (case read_at (vertices inputMesh) i of
                Inl e \<Rightarrow> Inl e
              | Inr x \<Rightarrow>
                  if pMax < tolP then Inr st
                  else (case selectCenter evaluate inputMesh n i pMax x st of
                          Inl e \<Rightarrow> Inl e
                        | Inr st' \<Rightarrow> selectionLoop evaluate inputMesh (n + 1) st')))
      else Inr st)"
  by pat_completeness auto
termination
  by (relation "measure (\<lambda>(evaluate, inputMesh, n, st). maxIter - n)") auto

text \<open>
  \<^verbatim>\<open>std::transform\<close> writes one negated flag per entry of \<^verbatim>\<open>deadAxis\<close> into the
  three-element array \<^verbatim>\<open>activeAxis\<close>; more than three entries write past its end.
\<close>

definition activeAxisOf :: "bool list \<Rightarrow> error + bool list" where
  "activeAxisOf deadAxis =
     (if length deadAxis \<le> 3
      then Inr (map Not deadAxis @ replicate (3 - length deadAxis) False)
      else Inl OutOfBounds)"

text \<open>
  The constructor. The parameters \<^verbatim>\<open>inputIDs\<close> and \<^verbatim>\<open>outputIDs\<close> are not used by its
  body and are left out. The four assertions on the members hold for an object under
  construction. The vector \<^verbatim>\<open>v\<close> starts uninitialised in the source and is
  overwritten by \<^verbatim>\<open>updateKernelVector\<close> before it is read; it starts as zeros here.
\<close>

definition initialSelection :: "(real \<Rightarrow> real) \<Rightarrow> Mesh \<Rightarrow> Mesh \<Rightarrow> Selection" where
  "initialSelection evaluate inputMesh outputMesh =
     (let n_in = length (vertices inputMesh);
          matWidth = min n_in maxIter;
          s0 = \<lparr>centers = [], cut = Zero matWidth matWidth, greedyIDs = [],
                inSize = n_in, outSize = length (vertices outputMesh),
                kernel_eval = Zero 0 0, basisMatrix = Zero n_in matWidth,
                powerFunction = replicate n_in (evaluate 0)\<rparr>
      in \<lparr>solver = s0, kernelVector = replicate n_in 0, centerBits = replicate n_in False\<rparr>)"

definition PGreedySolver_ctor ::
  "(real \<Rightarrow> real) \<Rightarrow> Mesh \<Rightarrow> Mesh \<Rightarrow> bool list \<Rightarrow> Polynomial \<Rightarrow> error + PGreedySolver" where
  "PGreedySolver_ctor evaluate inputMesh outputMesh deadAxis polynomial =
     andThen (P_ASSERT (polynomial = OFF)) (\<lambda>_.
     andThen (activeAxisOf deadAxis) (\<lambda>activeAxis.
     andThen (selectionLoop evaluate inputMesh 0 (initialSelection evaluate inputMesh outputMesh)) (\<lambda>st.
     andThen (buildEvaluationMatrix evaluate outputMesh inputMesh (greedyIDs (solver st))) (\<lambda>E.
       Inr ((solver st)\<lparr>kernel_eval := E\<rparr>)))))"

text \<open>
  The states of the selection loop: \<open>atIteration \<dots> n st\<close> holds when the constructor,
  run on the given meshes, is at the head of iteration \<open>n\<close> of the loop with the object
  and the locals in state \<open>st\<close>.
\<close>

inductive atIteration :: "(real \<Rightarrow> real) \<Rightarrow> Mesh \<Rightarrow> Mesh \<Rightarrow> nat \<Rightarrow> Selection \<Rightarrow> bool"
  for evaluate :: "real \<Rightarrow> real" and inputMesh :: Mesh and outputMesh :: Mesh where
  at_start: "atIteration evaluate inputMesh outputMesh 0 (initialSelection evaluate inputMesh outputMesh)"
| at_next: "atIteration evaluate inputMesh outputMesh n st \<Longrightarrow> n < maxIter \<Longrightarrow>
         select (solver st) = Inr (i, pMax) \<Longrightarrow> read_at (vertices inputMesh) i = Inr x \<Longrightarrow>
         \<not> pMax < tolP \<Longrightarrow> selectCenter evaluate inputMesh n i pMax x st = Inr st' \<Longrightarrow>
         atIteration evaluate inputMesh outputMesh (Suc n) st'"

text \<open>\<^verbatim>\<open>solveConservative\<close>: an assertion that is false, before anything else.\<close>

definition solveConservative :: "PGreedySolver \<Rightarrow> real list \<Rightarrow> Polynomial \<Rightarrow> error + real list" where
  "solveConservative s inputData polynomial =
     andThen (P_ASSERT False) (\<lambda>_. Inr [])"

text \<open>The Eigen operations of \<^verbatim>\<open>solveConsistent\<close>, each with its dimension check.\<close>

definition indexed :: "real list \<Rightarrow> nat list \<Rightarrow> error + real list" where
  "indexed xs ids =
     (if \<forall>k \<in> set ids. k < length xs then Inr (map (\<lambda>k. xs ! k) ids) else Inl AssertionFailed)"

definition block :: "Matrix \<Rightarrow> nat \<Rightarrow> nat \<Rightarrow> nat \<Rightarrow> nat \<Rightarrow> error + Matrix" where
  "block M r0 c0 r c =
     (if r0 + r \<le> nrows M \<and> c0 + c \<le> ncols M
      then Inr \<lparr>nrows = r, ncols = c, coeff = (\<lambda>i j. coeff M (r0 + i) (c0 + j))\<rparr>
      else Inl AssertionFailed)"

definition transposeM :: "Matrix \<Rightarrow> Matrix" where
  "transposeM M = \<lparr>nrows = ncols M, ncols = nrows M, coeff = (\<lambda>i j. coeff M j i)\<rparr>"

definition matVec :: "Matrix \<Rightarrow> real list \<Rightarrow> error + real list" where
  "matVec M x =
     (if ncols M = length x
      then Inr (map (\<lambda>i. sum_list (map (\<lambda>k. coeff M i k * x ! k) [0..<ncols M])) [0..<nrows M])
      else Inl AssertionFailed)"

definition solveConsistent :: "PGreedySolver \<Rightarrow> real list \<Rightarrow> Polynomial \<Rightarrow> error + real list" where
  "solveConsistent s inputData polynomial =
     (let n = length (greedyIDs s) in
      andThen (indexed inputData (greedyIDs s)) (\<lambda>y.
      andThen (block (cut s) 0 0 n n) (\<lambda>C.
      andThen (matVec (triangularLower C) y) (\<lambda>Ly.
      andThen (matVec (transposeM (triangularLower C)) Ly) (\<lambda>coeffs.
      andThen (matVec (transposeM (kernel_eval s)) coeffs) (\<lambda>prediction.
        Inr prediction))))))"

section \<open>The loop nests as folds, and the conditions of a well-formed call\<close>

text \<open>
  The two loop nests shared by the mapping and the communication, without the bounds
  checks: writing \<open>src\<close> through an index table into consecutive blocks of \<open>D\<close>
  entries, and accumulating consecutive blocks of \<open>src\<close> into the blocks the index
  table names.
\<close>

definition scatter_pure :: "nat list \<Rightarrow> nat \<Rightarrow> real list \<Rightarrow> nat \<Rightarrow> real list \<Rightarrow> real list" where
  "scatter_pure idx D src n out =
     fold (\<lambda>i out. fold (\<lambda>d out'. out'[i * D + d := src ! (idx ! i * D + d)]) [0..<D] out) [0..<n] out"

definition gather_pure :: "nat list \<Rightarrow> nat \<Rightarrow> real list \<Rightarrow> nat \<Rightarrow> real list \<Rightarrow> real list" where
  "gather_pure idx D src n out =
     fold (\<lambda>i out. fold (\<lambda>d out'. out'[idx ! i * D + d := out' ! (idx ! i * D + d) + src ! (i * D + d)])
        [0..<D] out) [0..<n] out"

text \<open>
  A nearest-neighbour query over a non-empty set of vertices answers with exactly one
  position of the searched container, and the local IDs of a mesh lie below its number
  of vertices (the spec: dense, 0-based).
\<close>

definition answersQueries ::
  "(Vertex list \<Rightarrow> real \<times> real \<times> real \<Rightarrow> nat list) \<Rightarrow> Vertex list \<Rightarrow> Vertex list \<Rightarrow> bool" where
  "answersQueries nearest searched queried =
     (\<forall>q \<in> set queried. \<exists>val < length searched. nearest searched (rawCoords q) = [val])"

definition localIDs :: "Vertex list \<Rightarrow> bool" where
  "localIDs vs = (\<forall>w \<in> set vs. getID w < length vs)"

section \<open>The channel across all ranks\<close>

text \<open>
  The spec's description of the vector the coordinator assembles: starting from zeros,
  for each rank \<open>r\<close> in ascending order, for each position \<open>i\<close> of its slice of the
  distribution and each component \<open>d\<close>,
  \<open>global[distribution[r][i]*valueDim + d] += contribution[r][i*valueDim + d]\<close>.
  \<open>gatheredUpTo\<close> is the same accumulation over the ranks below \<open>r\<close> from any start.
\<close>

definition spec_globalItemsToSend ::
  "(nat \<Rightarrow> nat list) \<Rightarrow> nat \<Rightarrow> (nat \<Rightarrow> real list) \<Rightarrow> nat \<Rightarrow> nat \<Rightarrow> real list" where
  "spec_globalItemsToSend distribution valueDim contribution N globalVertexCount =
     fold (\<lambda>r g. gather_pure (distribution r) valueDim (contribution r) (length (distribution r)) g)
       [0..<N] (replicate (globalVertexCount * valueDim) 0)"

definition gatheredUpTo ::
  "(nat \<Rightarrow> nat list) \<Rightarrow> nat \<Rightarrow> (nat \<Rightarrow> real list) \<Rightarrow> nat \<Rightarrow> real list \<Rightarrow> real list" where
  "gatheredUpTo vd D contribution r g0 =
     fold (\<lambda>r g. gather_pure (vd r) D (contribution r) (length (vd r)) g) [0..<r] g0"

text \<open>
  The scenario of a round trip. Every rank calls \<open>send\<close> with its local vector and then
  \<open>receive\<close> with a buffer of its local size; the other participant returns the vector it
  was sent unchanged. The calls of a bulk-synchronous step are run in an order in which
  no blocking receive waits: the workers send before the coordinator gathers, and the
  coordinator scatters before the workers receive.
\<close>

definition coordinatorContext :: "nat \<Rightarrow> MasterSlave" where
  "coordinatorContext N = \<lparr>isMaster = True, isSlave = False, getRank = 0, getSize = N,
     communicationSet = True, communicationConnected = True\<rparr>"

definition workerContext :: "nat \<Rightarrow> nat \<Rightarrow> MasterSlave" where
  "workerContext N r = \<lparr>isMaster = False, isSlave = True, getRank = int r, getSize = N,
     communicationSet = True, communicationConnected = True\<rparr>"

definition noMessages :: Links where
  "noMessages = \<lparr>toMaster = (\<lambda>_. []), toSlave = (\<lambda>_. []), toPeer = [], fromPeer = []\<rparr>"

definition sendOnAllRanks :: "nat \<Rightarrow> Mesh \<Rightarrow> (nat \<Rightarrow> real list) \<Rightarrow> nat \<Rightarrow> Links \<Rightarrow> error + Links" where
  "sendOnAllRanks N mesh items valueDimension lnk =
     andThen (for_loop [1..<N]
                (\<lambda>r l. send (workerContext N r) mesh l (items r) (length (items r)) valueDimension) lnk)
       (\<lambda>l. send (coordinatorContext N) mesh l (items 0) (length (items 0)) valueDimension)"

definition identityCoupling :: "Links \<Rightarrow> Links" where
  "identityCoupling l = l\<lparr>fromPeer := fromPeer l @ toPeer l, toPeer := []\<rparr>"

definition receiveOnAllRanks ::
  "nat \<Rightarrow> Mesh \<Rightarrow> (nat \<Rightarrow> real list) \<Rightarrow> nat \<Rightarrow> Links \<Rightarrow> error + (Links \<times> (nat \<Rightarrow> real list))" where
  "receiveOnAllRanks N mesh buffers valueDimension lnk =
     andThen (receive (coordinatorContext N) mesh lnk (buffers 0) (length (buffers 0)) valueDimension)
       (\<lambda>(l0, b0).
          for_loop [1..<N]
            (\<lambda>r (l, bs).
               andThen (receive (workerContext N r) mesh l (buffers r) (length (buffers r)) valueDimension)
                 (\<lambda>(l', b). Inr (l', bs(r := b))))
            (l0, buffers(0 := b0)))"

definition roundTrip ::
  "nat \<Rightarrow> Mesh \<Rightarrow> (nat \<Rightarrow> real list) \<Rightarrow> (nat \<Rightarrow> real list) \<Rightarrow> nat \<Rightarrow> error + (nat \<Rightarrow> real list)" where
  "roundTrip N mesh items buffers valueDimension =
     andThen (sendOnAllRanks N mesh items valueDimension noMessages) (\<lambda>l.
     andThen (receiveOnAllRanks N mesh buffers valueDimension (identityCoupling l)) (\<lambda>(l', bs).
       Inr bs))"

section \<open>The invariant of the selection loop\<close>

text \<open>
  What holds at the head of every iteration \<open>n\<close> of the selection loop: the sizes the
  constructor gave the vectors and matrices, \<open>n\<close> pairwise distinct selected indices
  which are exactly the set bits of \<open>centerBits\<close>, and the value of the power function:
  zero at a selected index, and \<open>\<phi>(0)\<close> minus the squares of the first \<open>n\<close> entries
  of the row of the basis matrix elsewhere.
\<close>

definition selectionInvariant :: "(real \<Rightarrow> real) \<Rightarrow> Mesh \<Rightarrow> nat \<Rightarrow> Selection \<Rightarrow> bool" where
  "selectionInvariant evaluate inputMesh n st =
     (let m = length (vertices inputMesh); s = solver st; B = basisMatrix s in
      inSize s = m \<and> length (powerFunction s) = m \<and> length (kernelVector st) = m \<and>
      length (centerBits st) = m \<and>
      nrows B = m \<and> ncols B = min m maxIter \<and>
      nrows (cut s) = min m maxIter \<and> ncols (cut s) = min m maxIter \<and>
      length (greedyIDs s) = n \<and> distinct (greedyIDs s) \<and>
      set (greedyIDs s) = {j. j < m \<and> centerBits st ! j} \<and>
      (\<forall>j < m. powerFunction s ! j =
         (if centerBits st ! j then 0 else evaluate 0 - (\<Sum>k < n. coeff B j k * coeff B j k))))"

section \<open>Example inputs\<close>

text \<open>
  A two-vertex input mesh with the scalar field \<open>[5, 7]\<close> and a one-vertex output mesh,
  bound to a mapping with a given constraint, index table and flag.
\<close>

definition exampleInput :: Mesh where
  "exampleInput = \<lparr>vertices = [\<lparr>getID = 0, rawCoords = (0, 0, 0)\<rparr>, \<lparr>getID = 1, rawCoords = (1, 0, 0)\<rparr>],
     data = (\<lambda>k. if k = 0 then Some \<lparr>valuesOf = [5, 7], getDimensions = 1\<rparr> else None),
     getVertexDistribution = (\<lambda>_. []), getGlobalNumberOfVertices = 2\<rparr>"

definition exampleOutput :: Mesh where
  "exampleOutput = \<lparr>vertices = [\<lparr>getID = 0, rawCoords = (1, 0, 0)\<rparr>],
     data = (\<lambda>k. if k = 0 then Some \<lparr>valuesOf = [0], getDimensions = 1\<rparr> else None),
     getVertexDistribution = (\<lambda>_. []), getGlobalNumberOfVertices = 1\<rparr>"

definition exampleMapping :: "Constraint \<Rightarrow> nat list \<Rightarrow> bool \<Rightarrow> NearestNeighborMapping" where
  "exampleMapping c idx b = \<lparr>getConstraint = c, input_mesh = exampleInput, output_mesh = exampleOutput,
     vertexIndices = idx, hasComputedMapping = b\<rparr>"

text \<open>
  The distribution \<open>{rank 0: [0, 1], rank 1: [2, 3]}\<close> over four global vertices, the
  input \<open>[10, 20, 30, 40]\<close> split accordingly, and the links after rank 1 has posted
  its slice.
\<close>

definition scenarioMesh :: Mesh where
  "scenarioMesh = \<lparr>vertices = [], data = (\<lambda>_. None),
     getVertexDistribution = (\<lambda>r. if r = 0 then [0, 1] else if r = 1 then [2, 3] else []),
     getGlobalNumberOfVertices = 4\<rparr>"

definition scenarioItems :: "nat \<Rightarrow> real list" where
  "scenarioItems r = (if r = 0 then [10, 20] else if r = 1 then [30, 40] else [])"

definition scenarioPosted :: Links where
  "scenarioPosted = noMessages\<lparr>toMaster := (\<lambda>r. if r = 1 then [scenarioItems 1] else [])\<rparr>"

text \<open>
  A solver state written down by hand, the inverse quadratic kernel \<open>1 / (1 + r\<^sup>2)\<close>, and
  a mesh of one vertex.
\<close>

definition exampleSolver :: PGreedySolver where
  "exampleSolver = \<lparr>centers = [], cut = \<lparr>nrows = 1, ncols = 1, coeff = (\<lambda>_ _. 2)\<rparr>, greedyIDs = [0],
     inSize = 1, outSize = 1, kernel_eval = \<lparr>nrows = 1, ncols = 1, coeff = (\<lambda>_ _. 3)\<rparr>,
     basisMatrix = Zero 1 1, powerFunction = [0]\<rparr>"

definition exampleKernel :: "real \<Rightarrow> real" where
  "exampleKernel r = 1 / (1 + r * r)"

definition singleVertexMesh :: Mesh where
  "singleVertexMesh = \<lparr>vertices = [\<lparr>getID = 0, rawCoords = (0, 0, 0)\<rparr>], data = (\<lambda>_. None),
     getVertexDistribution = (\<lambda>_. []), getGlobalNumberOfVertices = 1\<rparr>"

text \<open>
  The distribution \<open>{rank 0: [0, 1], rank 1: [1, 2]}\<close> over three global vertices, in which
  global index 1 is in the slice of both ranks, with the local vectors \<open>[10, 20]\<close> and
  \<open>[30, 40]\<close>.
\<close>

definition haloMesh :: Mesh where
  "haloMesh = \<lparr>vertices = [], data = (\<lambda>_. None),
     getVertexDistribution = (\<lambda>r. if r = 0 then [0, 1] else if r = 1 then [1, 2] else []),
     getGlobalNumberOfVertices = 3\<rparr>"

text \<open>
  A mesh of two vertices that differ along the third axis only.
\<close>

definition twoVertexMesh :: Mesh where
  "twoVertexMesh = \<lparr>vertices = [\<lparr>getID = 0, rawCoords = (0, 0, 0)\<rparr>, \<lparr>getID = 1, rawCoords = (0, 0, 1)\<rparr>],
     data = (\<lambda>_. None), getVertexDistribution = (\<lambda>_. []), getGlobalNumberOfVertices = 2\<rparr>"

text \<open>
  A basis function with \<open>\<phi>(0) = 10\<^sup>7\<close>, and the state of the selection loop after its
  first iteration on a mesh of one vertex when the three operations on \<^verbatim>\<open>v(0)\<close> and
  \<^verbatim>\<open>_powerFunction(0)\<close> are rounded to the nearest double: \<^verbatim>\<open>std::sqrt(pMax)\<close> gives
  \<open>roundedSqrtP\<close>, the quotient \<^verbatim>\<open>v(0) /= sqrtP\<close> gives \<open>roundedV\<close>, the product
  \<^verbatim>\<open>v(0) * v(0)\<close> gives \<open>roundedSquare\<close>, which is \<open>10\<^sup>7 - 2\<^sup>-\<^sup>2\<^sup>9\<close>, and the entry of \<^verbatim>\<open>_cut\<close>
  gives \<open>roundedCut\<close>.
\<close>

definition scaledKernel :: "real \<Rightarrow> real" where
  "scaledKernel r = 10 ^ 7 / (1 + r * r)"

definition roundedSqrtP :: real where
  "roundedSqrtP = 6953922115222831 / 2 ^ 41"

definition roundedV :: real where
  "roundedV = 3476961057611415 / 2 ^ 40"

definition roundedSquare :: real where
  "roundedSquare = 5368709119999999 / 2 ^ 29"

definition roundedCut :: real where
  "roundedCut = 1458343167178379 / 2 ^ 62"

definition roundedSelection :: Selection where
  "roundedSelection =
     \<lparr>solver = \<lparr>centers = [],
                cut = \<lparr>nrows = 1, ncols = 1, coeff = (\<lambda>r c. if r = 0 \<and> c = 0 then roundedCut else 0)\<rparr>,
                greedyIDs = [0], inSize = 1, outSize = 1, kernel_eval = Zero 0 0,
                basisMatrix = \<lparr>nrows = 1, ncols = 1, coeff = (\<lambda>r c. if c = 0 \<and> r < 1 then roundedV else 0)\<rparr>,
                powerFunction = [1 / 2 ^ 29]\<rparr>,
      kernelVector = [roundedV], centerBits = [True]\<rparr>"

section \<open>Basic facts about the modelling devices\<close>

lemma andThen_Inl [simp]: "andThen (Inl e) f = Inl e"
  by (simp add: andThen_def)

lemma andThen_Inr [simp]: "andThen (Inr x) f = f x"
  by (simp add: andThen_def)

lemma P_ASSERT_True [simp]: "P_ASSERT True = Inr ()"
  by (simp add: P_ASSERT_def)

lemma P_ASSERT_False [simp]: "P_ASSERT False = Inl AssertionFailed"
  by (simp add: P_ASSERT_def)

lemma for_loop_append:
  "for_loop (xs @ ys) body s = andThen (for_loop xs body s) (for_loop ys body)"
  by (induction xs arbitrary: s) (auto simp: andThen_def split: sum.splits)

lemma for_loop_pure:
  assumes "\<And>i s. i \<in> set xs \<Longrightarrow> P s \<Longrightarrow> body i s = Inr (f i s) \<and> P (f i s)"
    and "P s"
  shows "for_loop xs body s = Inr (fold f xs s) \<and> P (fold f xs s)"
  using assms by (induction xs arbitrary: s) auto

section \<open>Facts about the loop nests\<close>


lemma length_fold_upd:
  "length (fold (\<lambda>d out. out[g d out := h d out]) ds out) = length out"
  by (induction ds arbitrary: out) auto

lemma fold_write_nth:
  "k < length out \<Longrightarrow> fold (\<lambda>d out. out[b + d := f d]) [0..<m] out ! k =
     (if b \<le> k \<and> k < b + m then f (k - b) else out ! k)"
proof (induction m arbitrary: k)
  case 0
  then show ?case by auto
next
  case (Suc m)
  let ?r = "fold (\<lambda>d out. out[b + d := f d]) [0..<m] out"
  have len: "length ?r = length out"
    by (rule length_fold_upd)
  show ?case
  proof (cases "k = b + m")
    case True
    then show ?thesis using Suc.prems len by simp
  next
    case False
    then have "?r[b + m := f m] ! k = ?r ! k" by simp
    then show ?thesis using Suc.IH[OF Suc.prems] False by auto
  qed
qed

lemma fold_add_nth:
  "k < length out \<Longrightarrow> fold (\<lambda>d out. out[b + d := out ! (b + d) + f d]) [0..<m] out ! k =
     (if b \<le> k \<and> k < b + m then out ! k + f (k - b) else out ! k)"
proof (induction m arbitrary: k)
  case 0
  then show ?case by auto
next
  case (Suc m)
  let ?r = "fold (\<lambda>d out. out[b + d := out ! (b + d) + f d]) [0..<m] out"
  have len: "length ?r = length out"
    by (rule length_fold_upd)
  show ?case
  proof (cases "k = b + m")
    case True
    then show ?thesis using Suc.prems len Suc.IH[OF Suc.prems] by simp
  next
    case False
    then have "?r[b + m := ?r ! (b + m) + f m] ! k = ?r ! k" by simp
    then show ?thesis using Suc.IH[OF Suc.prems] False by auto
  qed
qed

lemma length_scatter_pure [simp]: "length (scatter_pure idx D src n out) = length out"
  unfolding scatter_pure_def
  by (induction n) (simp_all add: length_fold_upd)

lemma length_gather_pure [simp]: "length (gather_pure idx D src n out) = length out"
  unfolding gather_pure_def
  by (induction n) (simp_all add: length_fold_upd)

lemma scatter_pure_Suc:
  "scatter_pure idx D src (Suc n) out =
     fold (\<lambda>d out'. out'[n * D + d := src ! (idx ! n * D + d)]) [0..<D] (scatter_pure idx D src n out)"
  by (simp add: scatter_pure_def)

lemma gather_pure_Suc:
  "gather_pure idx D src (Suc n) out =
     fold (\<lambda>d out'. out'[idx ! n * D + d := out' ! (idx ! n * D + d) + src ! (n * D + d)]) [0..<D]
       (gather_pure idx D src n out)"
  by (simp add: gather_pure_def)

lemma div_mod_block:
  fixes k :: nat
  assumes "n * D \<le> k" "k < n * D + D"
  shows "k div D = n" "k mod D = k - n * D"
proof -
  have D: "0 < D" using assms by (cases D) auto
  obtain d where k: "k = n * D + d" "d < D"
    using assms by (metis add_diff_inverse_nat nat_add_left_cancel_less not_less)
  show "k div D = n" using k D by simp
  show "k mod D = k - n * D" using k D by simp
qed

lemma scatter_pure_nth:
  assumes "k < length out"
  shows "scatter_pure idx D src n out ! k =
     (if k < n * D then src ! (idx ! (k div D) * D + k mod D) else out ! k)"
proof (induction n)
  case 0
  then show ?case by (simp add: scatter_pure_def)
next
  case (Suc n)
  show ?case
  proof (cases "n * D \<le> k \<and> k < n * D + D")
    case True
    then show ?thesis
      using div_mod_block[of n D k] assms
      by (simp add: scatter_pure_Suc fold_write_nth)
  next
    case False
    then show ?thesis
      using Suc assms by (auto simp add: scatter_pure_Suc fold_write_nth)
  qed
qed

lemma gather_pure_nth:
  assumes "k < length out"
  shows "gather_pure idx D src n out ! k =
     out ! k + (\<Sum>i<n. if idx ! i * D \<le> k \<and> k < idx ! i * D + D then src ! (i * D + (k - idx ! i * D)) else 0)"
proof (induction n)
  case 0
  then show ?case by (simp add: gather_pure_def)
next
  case (Suc n)
  then show ?case
    using assms by (simp add: gather_pure_Suc fold_add_nth)
qed

lemma gather_pure_nth_block:
  assumes "g * D + d < length out" "d < D"
  shows "gather_pure idx D src n out ! (g * D + d) =
     out ! (g * D + d) + (\<Sum>i<n. if idx ! i = g then src ! (i * D + d) else 0)"
proof -
  have "\<And>i. (idx ! i * D \<le> g * D + d \<and> g * D + d < idx ! i * D + D) = (idx ! i = g)"
  proof -
    fix i
    show "(idx ! i * D \<le> g * D + d \<and> g * D + d < idx ! i * D + D) = (idx ! i = g)"
    proof
      assume a: "idx ! i * D \<le> g * D + d \<and> g * D + d < idx ! i * D + D"
      have "(g * D + d) div D = idx ! i" using div_mod_block(1)[of "idx ! i" D "g * D + d"] a by simp
      moreover have "(g * D + d) div D = g" using assms by simp
      ultimately show "idx ! i = g" by simp
    next
      assume "idx ! i = g"
      then show "idx ! i * D \<le> g * D + d \<and> g * D + d < idx ! i * D + D" using assms by simp
    qed
  qed
  then show ?thesis
    using gather_pure_nth[OF assms(1), of idx D src n]
    by (simp cong: if_cong)
qed

lemma sum_list_add_at:
  fixes xs :: "real list"
  shows "k < length xs \<Longrightarrow> sum_list (xs[k := xs ! k + v]) = sum_list xs + v"
  by (induction xs arbitrary: k) (auto split: nat.splits)

lemma sum_list_fold_add:
  fixes out :: "real list"
  assumes "b + m \<le> length out"
  shows "sum_list (fold (\<lambda>d out. out[b + d := out ! (b + d) + f d]) [0..<m] out) = sum_list out + (\<Sum>d<m. f d)"
  using assms
proof (induction m)
  case 0
  then show ?case by simp
next
  case (Suc m)
  have len: "length (fold (\<lambda>d out. out[b + d := out ! (b + d) + f d]) [0..<m] out) = length out"
    by (rule length_fold_upd)
  show ?case using Suc len by (simp add: sum_list_add_at)
qed

lemma sum_list_gather_pure:
  assumes "\<And>i. i < n \<Longrightarrow> idx ! i * D + D \<le> length out"
  shows "sum_list (gather_pure idx D src n out) = sum_list out + (\<Sum>i<n. \<Sum>d<D. src ! (i * D + d))"
  using assms
proof (induction n)
  case 0
  then show ?case by (simp add: gather_pure_def)
next
  case (Suc n)
  have "idx ! n * D + D \<le> length (gather_pure idx D src n out)"
    using Suc.prems[of n] by simp
  then show ?case
    using Suc by (simp add: gather_pure_Suc sum_list_fold_add)
qed

lemma sum_blocks:
  fixes f :: "nat \<Rightarrow> real"
  shows "(\<Sum>i<n. \<Sum>d<D. f (i * D + d)) = (\<Sum>k<n * D. f k)"
proof (induction n)
  case 0
  then show ?case by simp
next
  case (Suc n)
  have "(\<Sum>k<Suc n * D. f k) = (\<Sum>k<n * D. f k) + (\<Sum>k = n * D..<n * D + D. f k)"
    by (simp add: lessThan_atLeast0 sum.atLeastLessThan_concat add.commute)
  also have "(\<Sum>k = n * D..<n * D + D. f k) = (\<Sum>d<D. f (n * D + d))"
    using sum.shift_bounds_nat_ivl[of f 0 "n * D" D]
    by (simp add: lessThan_atLeast0 add.commute)
  finally show ?case using Suc by simp
qed

lemma sum_list_blocks:
  fixes src :: "real list"
  assumes "length src = n * D"
  shows "(\<Sum>i<n. \<Sum>d<D. src ! (i * D + d)) = sum_list src"
proof -
  have "sum_list src = (\<Sum>k<n * D. src ! k)"
    using assms by (simp add: sum_list_sum_nth lessThan_atLeast0)
  then show ?thesis by (simp add: sum_blocks)
qed


lemma index_bound:
  fixes i :: nat
  assumes "i < n" "d < D"
  shows "i * D + d < n * D"
proof -
  have "i * D + d < i * D + D" using assms by simp
  also have "\<dots> = Suc i * D" by simp
  also have "\<dots> \<le> n * D" using assms(1) by (intro mult_le_mono1) simp
  finally show ?thesis .
qed

lemma read_at_in [simp]: "i < length xs \<Longrightarrow> read_at xs i = Inr (xs ! i)"
  by (simp add: read_at_def)

lemma write_at_in [simp]: "i < length xs \<Longrightarrow> write_at xs i x = Inr (xs[i := x])"
  by (simp add: write_at_def)

lemma add_at_in [simp]: "i < length xs \<Longrightarrow> add_at xs i x = Inr (xs[i := xs ! i + x])"
  by (simp add: add_at_def)

lemma scatter_loop_pure:
  assumes src: "\<And>i d. i < n \<Longrightarrow> d < D \<Longrightarrow> idx ! i * D + d < length src"
    and out: "n * D \<le> length out"
  shows "for_loop [0..<n]
           (\<lambda>i it. for_loop [0..<D]
              (\<lambda>j it'. andThen (read_at src (idx ! i * D + j)) (\<lambda>x. write_at it' (i * D + j) x)) it)
           out = Inr (scatter_pure idx D src n out)"
proof -
  let ?P = "\<lambda>s::real list. length s = length out"
  let ?inner = "\<lambda>i j it'. andThen (read_at src (idx ! i * D + j)) (\<lambda>x. write_at it' (i * D + j) x)"
  let ?fi = "\<lambda>i j (it'::real list). it'[i * D + j := src ! (idx ! i * D + j)]"
  have inner: "for_loop [0..<D] (?inner i) s = Inr (fold (?fi i) [0..<D] s) \<and> ?P (fold (?fi i) [0..<D] s)"
    if "i \<in> set [0..<n]" "?P s" for i s
  proof (rule for_loop_pure[where P = ?P])
    fix j s'
    assume "j \<in> set [0..<D]" "?P s'"
    then show "?inner i j s' = Inr (?fi i j s') \<and> ?P (?fi i j s')"
      using that src[of i j] index_bound[of i n j D] out by simp
  qed (use that in simp)
  have "for_loop [0..<n] (\<lambda>i it. for_loop [0..<D] (?inner i) it) out
        = Inr (fold (\<lambda>i s. fold (?fi i) [0..<D] s) [0..<n] out)
        \<and> ?P (fold (\<lambda>i s. fold (?fi i) [0..<D] s) [0..<n] out)"
    by (rule for_loop_pure[where P = ?P]) (use inner in auto)
  then show ?thesis by (simp add: scatter_pure_def)
qed

lemma gather_loop_pure:
  assumes src: "n * D \<le> length src"
    and out: "\<And>i d. i < n \<Longrightarrow> d < D \<Longrightarrow> idx ! i * D + d < length out"
  shows "for_loop [0..<n]
           (\<lambda>i g. for_loop [0..<D]
              (\<lambda>j g'. andThen (read_at src (i * D + j)) (\<lambda>x. add_at g' (idx ! i * D + j) x)) g)
           out = Inr (gather_pure idx D src n out)"
proof -
  let ?P = "\<lambda>s::real list. length s = length out"
  let ?inner = "\<lambda>i j g'. andThen (read_at src (i * D + j)) (\<lambda>x. add_at g' (idx ! i * D + j) x)"
  let ?fi = "\<lambda>i j (g'::real list). g'[idx ! i * D + j := g' ! (idx ! i * D + j) + src ! (i * D + j)]"
  have inner: "for_loop [0..<D] (?inner i) s = Inr (fold (?fi i) [0..<D] s) \<and> ?P (fold (?fi i) [0..<D] s)"
    if "i \<in> set [0..<n]" "?P s" for i s
  proof (rule for_loop_pure[where P = ?P])
    fix j s'
    assume "j \<in> set [0..<D]" "?P s'"
    then show "?inner i j s' = Inr (?fi i j s') \<and> ?P (?fi i j s')"
      using that out[of i j] index_bound[of i n j D] src by simp
  qed (use that in simp)
  have "for_loop [0..<n] (\<lambda>i g. for_loop [0..<D] (?inner i) g) out
        = Inr (fold (\<lambda>i s. fold (?fi i) [0..<D] s) [0..<n] out)
        \<and> ?P (fold (\<lambda>i s. fold (?fi i) [0..<D] s) [0..<n] out)"
    by (rule for_loop_pure[where P = ?P]) (use inner in auto)
  then show ?thesis by (simp add: gather_pure_def)
qed

lemma for_loop_cong:
  assumes "\<And>i s. i \<in> set xs \<Longrightarrow> f i s = g i s"
  shows "for_loop xs f s = for_loop xs g s"
  using assms by (induction xs arbitrary: s) (auto simp: andThen_def split: sum.splits)

lemma mapConsistent_pure:
  assumes "m \<le> length indices"
    and "\<And>i d. i < m \<Longrightarrow> d < D \<Longrightarrow> indices ! i * D + d < length inputValues"
    and "m * D \<le> length out"
  shows "mapConsistent indices m D inputValues out = Inr (scatter_pure indices D inputValues m out)"
proof -
  have "mapConsistent indices m D inputValues out =
        for_loop [0..<m]
           (\<lambda>i it. for_loop [0..<D]
              (\<lambda>j it'. andThen (read_at inputValues (indices ! i * D + j)) (\<lambda>x. write_at it' (i * D + j) x)) it)
           out"
    unfolding mapConsistent_def
    by (rule for_loop_cong) (use assms(1) in simp)
  then show ?thesis using scatter_loop_pure[of m D indices inputValues out] assms by simp
qed

lemma mapConservative_pure:
  assumes "m \<le> length indices"
    and "m * D \<le> length inputValues"
    and "\<And>i d. i < m \<Longrightarrow> d < D \<Longrightarrow> indices ! i * D + d < length out"
  shows "mapConservative indices m D inputValues out = Inr (gather_pure indices D inputValues m out)"
proof -
  have "mapConservative indices m D inputValues out =
        for_loop [0..<m]
           (\<lambda>i g. for_loop [0..<D]
              (\<lambda>j g'. andThen (read_at inputValues (i * D + j)) (\<lambda>x. add_at g' (indices ! i * D + j) x)) g)
           out"
    unfolding mapConservative_def
    by (rule for_loop_cong) (use assms(1) in simp)
  then show ?thesis using gather_loop_pure[of m D inputValues indices out] assms by simp
qed

lemma gatherSlice_pure:
  assumes "length indices * D \<le> length items"
    and "\<And>i d. i < length indices \<Longrightarrow> d < D \<Longrightarrow> indices ! i * D + d < length g"
  shows "gatherSlice indices D items g = Inr (gather_pure indices D items (length indices) g)"
  unfolding gatherSlice_def using gather_loop_pure[of "length indices" D items indices g] assms by simp

lemma scatterSlice_pure:
  assumes "\<And>i d. i < length indices \<Longrightarrow> d < D \<Longrightarrow> indices ! i * D + d < length g"
    and "length indices * D \<le> length items"
  shows "scatterSlice indices D g items = Inr (scatter_pure indices D g (length indices) items)"
  unfolding scatterSlice_def using scatter_loop_pure[of "length indices" D indices g items] assms by simp


lemma for_loop_upt_invariant:
  assumes "I a s" "a \<le> b"
    and step: "\<And>i s. a \<le> i \<Longrightarrow> i < b \<Longrightarrow> I i s \<Longrightarrow> \<exists>s'. body i s = Inr s' \<and> I (Suc i) s'"
  shows "\<exists>s'. for_loop [a..<b] body s = Inr s' \<and> I b s'"
  using assms(2) step
proof (induction b)
  case 0
  then show ?case using assms(1) by simp
next
  case (Suc b)
  show ?case
  proof (cases "a = Suc b")
    case True
    then show ?thesis using assms(1) by simp
  next
    case False
    then have ab: "a \<le> b" using Suc.prems(1) by simp
    have "\<exists>s'. for_loop [a..<b] body s = Inr s' \<and> I b s'"
      by (rule Suc.IH[OF ab]) (use Suc.prems(2) in auto)
    then obtain s1 where s1: "for_loop [a..<b] body s = Inr s1" "I b s1" by blast
    obtain s2 where s2: "body b s1 = Inr s2" "I (Suc b) s2"
      using Suc.prems(2)[OF ab _ s1(2)] by auto
    have "[a..<Suc b] = [a..<b] @ [b]" using ab by simp
    then show ?thesis using s1 s2 by (simp add: for_loop_append)
  qed
qed

lemma length_resize [simp]: "length (resize xs n z) = n"
  by (simp add: resize_def)

lemma indexVertices_bound:
  assumes "answersQueries nearest searched queried" "localIDs searched"
  shows "\<exists>idx. indexVertices nearest searched queried indices = Inr idx \<and>
           length idx = length queried \<and> (\<forall>k < length queried. idx ! k < length searched)"
proof -
  let ?n = "length queried"
  let ?I = "\<lambda>i (idx::nat list). length idx = ?n \<and> (\<forall>k < i. idx ! k < length searched)"
  let ?body = "\<lambda>i idx. for_loop (nearest searched (rawCoords (queried ! i)))
             (\<lambda>val idx'. andThen (read_at searched val) (\<lambda>w. write_at idx' i (getID w))) idx"
  have "\<exists>s'. for_loop [0..<?n] ?body (resize indices ?n 0) = Inr s' \<and> ?I ?n s'"
  proof (rule for_loop_upt_invariant[where I = ?I])
    show "?I 0 (resize indices ?n 0)" by simp
    show "0 \<le> ?n" by simp
    fix i idx
    assume i: "0 \<le> i" "i < ?n" and inv: "?I i idx"
    obtain val where val: "val < length searched" "nearest searched (rawCoords (queried ! i)) = [val]"
      using assms(1) nth_mem[OF i(2)] unfolding answersQueries_def by blast
    have id: "getID (searched ! val) < length searched"
      using assms(2) val(1) by (simp add: localIDs_def)
    have "?body i idx = Inr (idx[i := getID (searched ! val)])"
      using val i inv by simp
    moreover have "?I (Suc i) (idx[i := getID (searched ! val)])"
      using inv id i by (auto simp: nth_list_update less_Suc_eq)
    ultimately show "\<exists>s'. ?body i idx = Inr s' \<and> ?I (Suc i) s'" by blast
  qed
  then show ?thesis by (simp add: indexVertices_def Let_def)
qed

lemma computeMapping_consistent:
  assumes "computeMapping nearest m0 = Inr m" "getConstraint m0 = CONSISTENT"
    and "answersQueries nearest (vertices (input_mesh m0)) (vertices (output_mesh m0))"
    and "localIDs (vertices (input_mesh m0))"
  shows "getConstraint m = CONSISTENT \<and> input_mesh m = input_mesh m0 \<and> output_mesh m = output_mesh m0 \<and>
         hasComputedMapping m \<and>
         length (vertexIndices m) = length (vertices (output_mesh m0)) \<and>
         (\<forall>k < length (vertices (output_mesh m0)). vertexIndices m ! k < length (vertices (input_mesh m0)))"
proof -
  obtain idx where idx: "indexVertices nearest (vertices (input_mesh m0)) (vertices (output_mesh m0)) (vertexIndices m0) = Inr idx"
    "length idx = length (vertices (output_mesh m0))"
    "\<forall>k < length (vertices (output_mesh m0)). idx ! k < length (vertices (input_mesh m0))"
    using indexVertices_bound[OF assms(3,4)] by blast
  have "m = m0\<lparr>vertexIndices := idx, hasComputedMapping := True\<rparr>"
    using assms(1,2) idx(1) by (simp add: computeMapping_def)
  then show ?thesis using idx assms(2) by simp
qed

lemma computeMapping_conservative:
  assumes "computeMapping nearest m0 = Inr m" "getConstraint m0 = CONSERVATIVE"
    and "answersQueries nearest (vertices (output_mesh m0)) (vertices (input_mesh m0))"
    and "localIDs (vertices (output_mesh m0))"
  shows "getConstraint m = CONSERVATIVE \<and> input_mesh m = input_mesh m0 \<and> output_mesh m = output_mesh m0 \<and>
         hasComputedMapping m \<and>
         length (vertexIndices m) = length (vertices (input_mesh m0)) \<and>
         (\<forall>k < length (vertices (input_mesh m0)). vertexIndices m ! k < length (vertices (output_mesh m0)))"
proof -
  obtain idx where idx: "indexVertices nearest (vertices (output_mesh m0)) (vertices (input_mesh m0)) (vertexIndices m0) = Inr idx"
    "length idx = length (vertices (input_mesh m0))"
    "\<forall>k < length (vertices (input_mesh m0)). idx ! k < length (vertices (output_mesh m0))"
    using indexVertices_bound[OF assms(3,4)] by blast
  have "m = m0\<lparr>vertexIndices := idx, hasComputedMapping := True\<rparr>"
    using assms(1,2) idx(1) by (simp add: computeMapping_def)
  then show ?thesis using idx assms(2) by simp
qed

lemma map_nn_consistent:
  assumes c: "getConstraint m = CONSISTENT"
    and inD: "data (input_mesh m) inputDataID = Some inData"
    and outD: "data (output_mesh m) outputDataID = Some outData"
    and dims: "getDimensions inData = D" "getDimensions outData = D" "0 < D"
    and sz: "length (valuesOf inData) div D = length (vertices (input_mesh m))"
            "length (valuesOf outData) div D = length (vertices (output_mesh m))"
    and vi: "length (vertexIndices m) = length (vertices (output_mesh m))"
            "\<forall>k < length (vertices (output_mesh m)). vertexIndices m ! k < length (vertices (input_mesh m))"
  shows "map_nn m inputDataID outputDataID =
           Inr (scatter_pure (vertexIndices m) D (valuesOf inData) (length (vertices (output_mesh m))) (valuesOf outData))"
proof -
  let ?nin = "length (vertices (input_mesh m))" and ?nout = "length (vertices (output_mesh m))"
  have a: "?nin * D \<le> length (valuesOf inData)" using sz(1) by (metis div_times_less_eq_dividend)
  have b: "?nout * D \<le> length (valuesOf outData)" using sz(2) by (metis div_times_less_eq_dividend)
  have rd: "vertexIndices m ! i * D + d < length (valuesOf inData)" if "i < ?nout" "d < D" for i d
    using index_bound[of "vertexIndices m ! i" ?nin d D] vi(2) that a by auto
  have "mapConsistent (vertexIndices m) ?nout D (valuesOf inData) (valuesOf outData) =
          Inr (scatter_pure (vertexIndices m) D (valuesOf inData) ?nout (valuesOf outData))"
    by (rule mapConsistent_pure) (use vi(1) rd b in auto)
  then show ?thesis
    using c inD outD dims sz by (simp add: map_nn_def mesh_data_def Let_def)
qed

lemma map_nn_conservative:
  assumes c: "getConstraint m = CONSERVATIVE"
    and inD: "data (input_mesh m) inputDataID = Some inData"
    and outD: "data (output_mesh m) outputDataID = Some outData"
    and dims: "getDimensions inData = D" "getDimensions outData = D" "0 < D"
    and sz: "length (valuesOf inData) div D = length (vertices (input_mesh m))"
            "length (valuesOf outData) div D = length (vertices (output_mesh m))"
    and vi: "length (vertexIndices m) = length (vertices (input_mesh m))"
            "\<forall>k < length (vertices (input_mesh m)). vertexIndices m ! k < length (vertices (output_mesh m))"
  shows "map_nn m inputDataID outputDataID =
           Inr (gather_pure (vertexIndices m) D (valuesOf inData) (length (vertices (input_mesh m))) (valuesOf outData))"
proof -
  let ?nin = "length (vertices (input_mesh m))" and ?nout = "length (vertices (output_mesh m))"
  have a: "?nin * D \<le> length (valuesOf inData)" using sz(1) by (metis div_times_less_eq_dividend)
  have b: "?nout * D \<le> length (valuesOf outData)" using sz(2) by (metis div_times_less_eq_dividend)
  have wr: "vertexIndices m ! i * D + d < length (valuesOf outData)" if "i < ?nin" "d < D" for i d
    using index_bound[of "vertexIndices m ! i" ?nout d D] vi(2) that b by auto
  have "mapConservative (vertexIndices m) ?nin D (valuesOf inData) (valuesOf outData) =
          Inr (gather_pure (vertexIndices m) D (valuesOf inData) ?nin (valuesOf outData))"
    by (rule mapConservative_pure) (use vi(1) wr a in auto)
  then show ?thesis
    using c inD outD dims sz by (simp add: map_nn_def mesh_data_def Let_def)
qed

lemma sum_list_all_zero:
  fixes xs :: "real list"
  shows "\<forall>x \<in> set xs. x = 0 \<Longrightarrow> sum_list xs = 0"
  by (induction xs) auto

lemma example_computeMapping_consistent:
  "computeMapping (\<lambda>vs c. [1]) (exampleMapping CONSISTENT [] False) = Inr (exampleMapping CONSISTENT [1] True)"
  by (simp add: computeMapping_def indexVertices_def exampleMapping_def exampleInput_def exampleOutput_def
      resize_def read_at_def write_at_def)

lemma example_computeMapping_conservative:
  "computeMapping (\<lambda>vs c. [0]) (exampleMapping CONSERVATIVE [] False) = Inr (exampleMapping CONSERVATIVE [0, 0] True)"
  by (simp add: computeMapping_def indexVertices_def exampleMapping_def exampleInput_def exampleOutput_def
      resize_def read_at_def write_at_def numeral_2_eq_2)

section \<open>Facts about the gather/scatter channel\<close>

lemma gather_pure_empty: "n * D = 0 \<Longrightarrow> gather_pure idx D src n out = out"
proof (cases "n = 0")
  case True
  then show ?thesis by (simp add: gather_pure_def)
next
  case False
  assume "n * D = 0"
  then have D: "D = 0" using False by simp
  show ?thesis unfolding gather_pure_def D
    by (induction n) simp_all
qed

lemma scatter_pure_empty: "n * D = 0 \<Longrightarrow> scatter_pure idx D src n out = out"
proof (cases "n = 0")
  case True
  then show ?thesis by (simp add: scatter_pure_def)
next
  case False
  assume "n * D = 0"
  then have D: "D = 0" using False by simp
  show ?thesis unfolding scatter_pure_def D
    by (induction n) simp_all
qed

lemma com_send_all [simp]: "com_send buf (length buf) = Inr buf"
  by (simp add: com_send_def)

lemma com_receive_head:
  "length msg = n \<Longrightarrow> length buf = n \<Longrightarrow> com_receive (msg # rest) buf n = Inr (msg, rest)"
  by (simp add: com_receive_def)

lemma length_gatheredUpTo [simp]: "length (gatheredUpTo vd D c r g0) = length g0"
  by (induction r) (simp_all add: gatheredUpTo_def)

lemma gatheredUpTo_Suc:
  "gatheredUpTo vd D c (Suc r) g0 = gather_pure (vd r) D (c r) (length (vd r)) (gatheredUpTo vd D c r g0)"
  by (simp add: gatheredUpTo_def)

lemma gatheredUpTo_nth:
  assumes "g * D + d < length g0" "d < D"
  shows "gatheredUpTo vd D c r g0 ! (g * D + d) =
           g0 ! (g * D + d) + (\<Sum>r' < r. \<Sum>i < length (vd r'). if vd r' ! i = g then c r' ! (i * D + d) else 0)"
proof (induction r)
  case 0
  then show ?case by (simp add: gatheredUpTo_def)
next
  case (Suc r)
  show ?case
    using Suc assms by (simp add: gatheredUpTo_Suc gather_pure_nth_block)
qed

lemma send_coordinator:
  fixes mesh :: Mesh and lnk :: Links
  defines "vd \<equiv> getVertexDistribution mesh"
  defines "G \<equiv> getGlobalNumberOfVertices mesh"
  assumes ctx: "isMaster ms" "\<not> isSlave ms" "getRank ms = 0" "communicationSet ms"
      "communicationConnected ms" "getSize ms = N" "1 < N"
    and own: "length (vd 0) * D \<le> length itemsToSend"
    and posted: "\<forall>r. 1 \<le> r \<and> r < N \<and> 0 < length (vd r) * D \<longrightarrow>
                  toMaster lnk r \<noteq> [] \<and> length (hd (toMaster lnk r)) = length (vd r) * D"
    and rng: "\<forall>r < N. \<forall>g \<in> set (vd r). g < G"
    and contribution: "contribution = (\<lambda>r. if r = 0 then itemsToSend else hd (toMaster lnk r))"
  shows "send ms mesh lnk itemsToSend localSize D =
           Inr (lnk\<lparr>toMaster := (\<lambda>r. if 1 \<le> r \<and> r < N \<and> 0 < length (vd r) * D
                                     then tl (toMaster lnk r) else toMaster lnk r),
                    toPeer := toPeer lnk @ [gatheredUpTo vd D contribution N (replicate (G * D) 0)]\<rparr>)"
proof -
  let ?g0 = "replicate (G * D) (0::real)"
  let ?Gr = "\<lambda>r. gatheredUpTo vd D contribution r ?g0"
  let ?L = "\<lambda>r. lnk\<lparr>toMaster := (\<lambda>r'. if 1 \<le> r' \<and> r' < r \<and> 0 < length (vd r') * D
                                     then tl (toMaster lnk r') else toMaster lnk r')\<rparr>"
  have asserts: "send_asserts ms = Inr ()"
    using ctx by (simp add: send_asserts_def)
  have inr: "vd r ! i * D + d < G * D" if "r < N" "i < length (vd r)" "d < D" for r i d
  proof -
    have "vd r ! i < G" using rng that(1,2) by simp
    then show ?thesis using index_bound[of "vd r ! i" G d D] that by simp
  qed
  have first: "gatherSlice (vd 0) D itemsToSend ?g0 = Inr (?Gr 1)"
  proof -
    have "gatherSlice (vd 0) D itemsToSend ?g0 = Inr (gather_pure (vd 0) D itemsToSend (length (vd 0)) ?g0)"
      by (rule gatherSlice_pure) (use own inr[of 0] ctx in auto)
    then show ?thesis by (simp add: gatheredUpTo_def contribution)
  qed
  let ?body = "\<lambda>rankSlave (l, g).
             let slaveSize = length (vd rankSlave) * D in
             if slaveSize > 0 then
               andThen (com_receive (toMaster l rankSlave) (replicate slaveSize 0) slaveSize)
                 (\<lambda>(valuesSlave, rest).
                    andThen (gatherSlice (vd rankSlave) D valuesSlave g)
                      (\<lambda>g'. Inr (l\<lparr>toMaster := (toMaster l)(rankSlave := rest)\<rparr>, g')))
             else Inr (l, g)"
  let ?I = "\<lambda>r (s :: Links \<times> real list). s = (?L r, ?Gr r)"
  have loop: "\<exists>s'. for_loop [1..<N] ?body (lnk, ?Gr 1) = Inr s' \<and> ?I N s'"
  proof (rule for_loop_upt_invariant[where I = ?I])
    have "(\<lambda>r'. if 1 \<le> r' \<and> r' < 1 \<and> 0 < length (vd r') * D
                 then tl (toMaster lnk r') else toMaster lnk r') = toMaster lnk"
      by (auto simp: fun_eq_iff)
    then have "?L 1 = lnk" by simp
    then show "?I 1 (lnk, ?Gr 1)" by simp
    show "1 \<le> N" using ctx by simp
    fix r s
    assume r: "1 \<le> r" "r < N" and inv: "?I r s"
    show "\<exists>s'. ?body r s = Inr s' \<and> ?I (Suc r) s'"
    proof (cases "0 < length (vd r) * D")
      case True
      obtain rest where q: "toMaster lnk r = contribution r # rest" "length (contribution r) = length (vd r) * D"
        using posted r True contribution by (cases "toMaster lnk r") auto
      have gs: "gatherSlice (vd r) D (contribution r) (?Gr r) = Inr (?Gr (Suc r))"
      proof -
        have "gatherSlice (vd r) D (contribution r) (?Gr r) =
                Inr (gather_pure (vd r) D (contribution r) (length (vd r)) (?Gr r))"
          by (rule gatherSlice_pure) (use q inr[of r] r in auto)
        then show ?thesis by (simp add: gatheredUpTo_Suc)
      qed
      have "(toMaster (?L r))(r := rest) =
              (\<lambda>r'. if 1 \<le> r' \<and> r' < Suc r \<and> 0 < length (vd r') * D
                 then tl (toMaster lnk r') else toMaster lnk r')"
        using True q r(1) by (auto simp: fun_eq_iff less_Suc_eq)
      then have upd: "(?L r)\<lparr>toMaster := (toMaster (?L r))(r := rest)\<rparr> = ?L (Suc r)"
        by simp
      have "?body r s = Inr (?L (Suc r), ?Gr (Suc r))"
        using inv True q gs upd by (simp add: com_receive_head Let_def)
      then show ?thesis by simp
    next
      case False
      have "?Gr (Suc r) = ?Gr r"
        using False by (simp add: gatheredUpTo_Suc gather_pure_empty)
      moreover have "(\<lambda>r'. if 1 \<le> r' \<and> r' < Suc r \<and> 0 < length (vd r') * D
                 then tl (toMaster lnk r') else toMaster lnk r') =
              (\<lambda>r'. if 1 \<le> r' \<and> r' < r \<and> 0 < length (vd r') * D
                 then tl (toMaster lnk r') else toMaster lnk r')"
        using False by (auto simp: fun_eq_iff less_Suc_eq)
      then have "?L (Suc r) = ?L r" by simp
      ultimately have "?body r s = Inr (?L (Suc r), ?Gr (Suc r))"
        using inv False by (auto simp: Let_def)
      then show ?thesis by simp
    qed
  qed
  then have loop': "for_loop [1..<N] ?body (lnk, ?Gr 1) = Inr (?L N, ?Gr N)" by auto
  have fin: "com_send (?Gr N) (G * D) = Inr (?Gr N)"
    using com_send_all[of "?Gr N"] by simp
  show ?thesis
    unfolding send_def
    using asserts ctx first loop' fin
    by (simp add: Let_def vd_def[symmetric] G_def[symmetric])
qed

lemma spec_globalItemsToSend_eq:
  "spec_globalItemsToSend vd D c N G = gatheredUpTo vd D c N (replicate (G * D) 0)"
  by (simp add: spec_globalItemsToSend_def gatheredUpTo_def)

lemma gatheredUpTo_cong:
  assumes "\<forall>r < N. 0 < length (vd r) * D \<longrightarrow> c r = c' r"
  shows "gatheredUpTo vd D c N g0 = gatheredUpTo vd D c' N g0"
  using assms
proof (induction N)
  case 0
  then show ?case by (simp add: gatheredUpTo_def)
next
  case (Suc N)
  then have IH: "gatheredUpTo vd D c N g0 = gatheredUpTo vd D c' N g0" by simp
  show ?case
  proof (cases "0 < length (vd N) * D")
    case True
    then have "c N = c' N" using Suc.prems by simp
    then show ?thesis using IH by (simp add: gatheredUpTo_Suc)
  next
    case False
    then show ?thesis using IH by (simp add: gatheredUpTo_Suc gather_pure_empty)
  qed
qed

lemma send_worker:
  assumes "1 < N"
  shows "send (workerContext N r) mesh l items (length items) D =
           Inr (if 0 < length items then l\<lparr>toMaster := (toMaster l)(r := toMaster l r @ [items])\<rparr> else l)"
  using assms by (simp add: send_def send_asserts_def workerContext_def)

lemma workers_send:
  assumes "1 < N"
  shows "for_loop [1..<N] (\<lambda>r l. send (workerContext N r) mesh l (items r) (length (items r)) D) noMessages =
           Inr (noMessages\<lparr>toMaster := (\<lambda>r. if 1 \<le> r \<and> r < N \<and> 0 < length (items r) then [items r] else [])\<rparr>)"
proof -
  let ?L = "\<lambda>r. noMessages\<lparr>toMaster := (\<lambda>r'. if 1 \<le> r' \<and> r' < r \<and> 0 < length (items r') then [items r'] else [])\<rparr>"
  let ?I = "\<lambda>r (l::Links). l = ?L r"
  have "\<exists>s'. for_loop [1..<N] (\<lambda>r l. send (workerContext N r) mesh l (items r) (length (items r)) D) noMessages
           = Inr s' \<and> ?I N s'"
  proof (rule for_loop_upt_invariant[where I = ?I])
    have "(\<lambda>r'. if 1 \<le> r' \<and> r' < 1 \<and> 0 < length (items r') then [items r'] else []) = (\<lambda>_. [])"
      by (auto simp: fun_eq_iff)
    then show "?I 1 noMessages" by (simp add: noMessages_def)
    show "1 \<le> N" using assms by simp
    fix r s
    assume r: "1 \<le> r" "r < N" and inv: "?I r s"
    have step: "(if 0 < length (items r) then (?L r)\<lparr>toMaster := (toMaster (?L r))(r := toMaster (?L r) r @ [items r])\<rparr> else ?L r)
          = ?L (Suc r)"
    proof (cases "0 < length (items r)")
      case True
      have "(toMaster (?L r))(r := toMaster (?L r) r @ [items r]) =
            (\<lambda>r'. if 1 \<le> r' \<and> r' < Suc r \<and> 0 < length (items r') then [items r'] else [])"
        using True r(1) by (auto simp: fun_eq_iff less_Suc_eq)
      then show ?thesis using True by simp
    next
      case False
      have "(\<lambda>r'. if 1 \<le> r' \<and> r' < Suc r \<and> 0 < length (items r') then [items r'] else []) =
            (\<lambda>r'. if 1 \<le> r' \<and> r' < r \<and> 0 < length (items r') then [items r'] else [])"
        using False by (auto simp: fun_eq_iff less_Suc_eq)
      then show ?thesis using False by simp
    qed
    have "send (workerContext N r) mesh (?L r) (items r) (length (items r)) D = Inr (?L (Suc r))"
      by (simp only: send_worker[OF assms] step)
    then show "\<exists>s'. send (workerContext N r) mesh s (items r) (length (items r)) D = Inr s' \<and> ?I (Suc r) s'"
      using inv by blast
  qed
  then show ?thesis by auto
qed

lemma receive_coordinator:
  fixes mesh :: Mesh and lnk :: Links
  defines "vd \<equiv> getVertexDistribution mesh"
  defines "G \<equiv> getGlobalNumberOfVertices mesh"
  assumes ctx: "isMaster ms" "\<not> isSlave ms" "getRank ms = 0" "communicationSet ms"
      "communicationConnected ms" "getSize ms = N" "1 < N"
    and msg: "fromPeer lnk = g # rest" "length g = G * D"
    and buf: "length (vd 0) * D \<le> length buf"
    and rng: "\<forall>r < N. \<forall>k \<in> set (vd r). k < G"
  shows "receive ms mesh lnk buf localSize D =
           Inr (lnk\<lparr>toSlave := (\<lambda>r. if 1 \<le> r \<and> r < N \<and> 0 < length (vd r) * D
                     then toSlave lnk r @ [scatter_pure (vd r) D g (length (vd r)) (replicate (length (vd r) * D) 0)]
                     else toSlave lnk r),
                    fromPeer := rest\<rparr>,
                scatter_pure (vd 0) D g (length (vd 0)) buf)"
proof -
  let ?msg = "\<lambda>r. scatter_pure (vd r) D g (length (vd r)) (replicate (length (vd r) * D) 0)"
  let ?l0 = "lnk\<lparr>fromPeer := rest\<rparr>"
  let ?L = "\<lambda>r. ?l0\<lparr>toSlave := (\<lambda>r'. if 1 \<le> r' \<and> r' < r \<and> 0 < length (vd r') * D
                     then toSlave lnk r' @ [?msg r'] else toSlave lnk r')\<rparr>"
  have asserts: "send_asserts ms = Inr ()"
    using ctx by (simp add: send_asserts_def)
  have inr: "vd r ! i * D + d < length g" if "r < N" "i < length (vd r)" "d < D" for r i d
  proof -
    have "vd r ! i < G" using rng that(1,2) by simp
    then show ?thesis using index_bound[of "vd r ! i" G d D] msg(2) that(3) by simp
  qed
  have rcv: "com_receive (fromPeer lnk) (resize [] (G * D) 0) (G * D) = Inr (g, rest)"
    using msg by (simp add: com_receive_head)
  have own: "scatterSlice (vd 0) D g buf = Inr (scatter_pure (vd 0) D g (length (vd 0)) buf)"
    by (rule scatterSlice_pure) (use inr[of 0] ctx buf in auto)
  let ?body = "\<lambda>rankSlave l.
             let slaveSize = length (vd rankSlave) * D in
             if slaveSize > 0 then
               andThen (scatterSlice (vd rankSlave) D g (replicate slaveSize 0))
                 (\<lambda>valuesSlave.
                    andThen (com_send valuesSlave slaveSize)
                      (\<lambda>msg. Inr (l\<lparr>toSlave := (toSlave l)(rankSlave := toSlave l rankSlave @ [msg])\<rparr>)))
             else Inr l"
  let ?I = "\<lambda>r (l::Links). l = ?L r"
  have loop: "\<exists>s'. for_loop [1..<N] ?body ?l0 = Inr s' \<and> ?I N s'"
  proof (rule for_loop_upt_invariant[where I = ?I])
    have "(\<lambda>r'. if 1 \<le> r' \<and> r' < 1 \<and> 0 < length (vd r') * D
                     then toSlave lnk r' @ [?msg r'] else toSlave lnk r') = toSlave lnk"
      by (auto simp: fun_eq_iff)
    then show "?I 1 ?l0" by simp
    show "1 \<le> N" using ctx by simp
    fix r s
    assume r: "1 \<le> r" "r < N" and inv: "?I r s"
    show "\<exists>s'. ?body r s = Inr s' \<and> ?I (Suc r) s'"
    proof (cases "0 < length (vd r) * D")
      case True
      have sc: "scatterSlice (vd r) D g (replicate (length (vd r) * D) 0) = Inr (?msg r)"
        by (rule scatterSlice_pure) (use inr[of r] r in auto)
      have cs: "com_send (?msg r) (length (vd r) * D) = Inr (?msg r)"
        using com_send_all[of "?msg r"] by simp
      have "(toSlave (?L r))(r := toSlave (?L r) r @ [?msg r]) =
            (\<lambda>r'. if 1 \<le> r' \<and> r' < Suc r \<and> 0 < length (vd r') * D
                     then toSlave lnk r' @ [?msg r'] else toSlave lnk r')"
        using True r(1) by (auto simp: fun_eq_iff less_Suc_eq)
      then have upd: "(?L r)\<lparr>toSlave := (toSlave (?L r))(r := toSlave (?L r) r @ [?msg r])\<rparr> = ?L (Suc r)"
        by simp
      have "?body r s = Inr (?L (Suc r))"
        using inv True sc cs upd by (simp add: Let_def)
      then show ?thesis by simp
    next
      case False
      have "(\<lambda>r'. if 1 \<le> r' \<and> r' < Suc r \<and> 0 < length (vd r') * D
                     then toSlave lnk r' @ [?msg r'] else toSlave lnk r') =
            (\<lambda>r'. if 1 \<le> r' \<and> r' < r \<and> 0 < length (vd r') * D
                     then toSlave lnk r' @ [?msg r'] else toSlave lnk r')"
        using False by (auto simp: fun_eq_iff less_Suc_eq)
      then have "?L (Suc r) = ?L r" by simp
      then have "?body r s = Inr (?L (Suc r))"
        using inv False by (auto simp: Let_def)
      then show ?thesis by simp
    qed
  qed
  then have loop': "for_loop [1..<N] ?body ?l0 = Inr (?L N)" by auto
  show ?thesis
    unfolding receive_def
    using asserts ctx rcv own loop'
    by (simp add: Let_def vd_def[symmetric] G_def[symmetric])
qed

lemma receive_worker:
  assumes "1 < N" "toSlave l r = msg # rest" "length msg = length buf" "0 < length buf"
  shows "receive (workerContext N r) mesh l buf (length buf) D =
           Inr (l\<lparr>toSlave := (toSlave l)(r := rest)\<rparr>, msg)"
  using assms by (simp add: receive_def send_asserts_def workerContext_def com_receive_head)

lemma receive_worker_empty:
  assumes "1 < N"
  shows "receive (workerContext N r) mesh l [] 0 D = Inr (l, [])"
  using assms by (simp add: receive_def send_asserts_def workerContext_def)

lemma sendOnAllRanks_result:
  fixes mesh :: Mesh
  defines "vd \<equiv> getVertexDistribution mesh"
  defines "G \<equiv> getGlobalNumberOfVertices mesh"
  assumes N: "1 < N"
    and sz: "\<forall>r < N. length (items r) = length (vd r) * D"
    and rng: "\<forall>r < N. \<forall>k \<in> set (vd r). k < G"
  shows "\<exists>l. sendOnAllRanks N mesh items D noMessages = Inr l \<and>
           toSlave l = (\<lambda>_. []) \<and> fromPeer l = [] \<and>
           toPeer l = [gatheredUpTo vd D items N (replicate (G * D) 0)]"
proof -
  let ?l1 = "noMessages\<lparr>toMaster := (\<lambda>r. if 1 \<le> r \<and> r < N \<and> 0 < length (items r) then [items r] else [])\<rparr>"
  let ?c = "\<lambda>r. if r = 0 then items 0 else hd (toMaster ?l1 r)"
  have posted: "\<forall>r. 1 \<le> r \<and> r < N \<and> 0 < length (getVertexDistribution mesh r) * D \<longrightarrow>
                  toMaster ?l1 r \<noteq> [] \<and> length (hd (toMaster ?l1 r)) = length (getVertexDistribution mesh r) * D"
    using sz by (auto simp: vd_def)
  have own: "length (getVertexDistribution mesh 0) * D \<le> length (items 0)"
    using sz N by (simp add: vd_def)
  have snd: "send (coordinatorContext N) mesh ?l1 (items 0) (length (items 0)) D =
           Inr (?l1\<lparr>toMaster := (\<lambda>r. if 1 \<le> r \<and> r < N \<and> 0 < length (getVertexDistribution mesh r) * D
                                     then tl (toMaster ?l1 r) else toMaster ?l1 r),
                    toPeer := toPeer ?l1 @ [gatheredUpTo (getVertexDistribution mesh) D ?c N
                        (replicate (getGlobalNumberOfVertices mesh * D) 0)]\<rparr>)"
    by (rule send_coordinator[where N = N, OF _ _ _ _ _ _ N own posted rng[unfolded vd_def G_def]])
       (simp_all add: coordinatorContext_def)
  have "gatheredUpTo vd D ?c N (replicate (G * D) 0) = gatheredUpTo vd D items N (replicate (G * D) 0)"
    by (rule gatheredUpTo_cong) (use sz in auto)
  then show ?thesis
    using snd workers_send[OF N, of mesh items D]
    by (simp add: sendOnAllRanks_def vd_def G_def noMessages_def)
qed

lemma receiveOnAllRanks_result:
  fixes mesh :: Mesh and lnk :: Links
  defines "vd \<equiv> getVertexDistribution mesh"
  defines "G \<equiv> getGlobalNumberOfVertices mesh"
  assumes N: "1 < N"
    and lnk: "toSlave lnk = (\<lambda>_. [])" "fromPeer lnk = [g]" "length g = G * D"
    and sz: "\<forall>r < N. length (buffers r) = length (vd r) * D"
    and rng: "\<forall>r < N. \<forall>k \<in> set (vd r). k < G"
  shows "\<exists>l bs. receiveOnAllRanks N mesh buffers D lnk = Inr (l, bs) \<and>
           (\<forall>r < N. bs r = scatter_pure (vd r) D g (length (vd r)) (buffers r))"
proof -
  let ?msg = "\<lambda>r. scatter_pure (vd r) D g (length (vd r)) (replicate (length (vd r) * D) 0)"
  let ?b0 = "scatter_pure (vd 0) D g (length (vd 0)) (buffers 0)"
  let ?l4 = "lnk\<lparr>toSlave := (\<lambda>r. if 1 \<le> r \<and> r < N \<and> 0 < length (vd r) * D
                     then toSlave lnk r @ [?msg r] else toSlave lnk r), fromPeer := []\<rparr>"
  have buf0: "length (getVertexDistribution mesh 0) * D \<le> length (buffers 0)"
    using sz N by (simp add: vd_def)
  have rc: "receive (coordinatorContext N) mesh lnk (buffers 0) (length (buffers 0)) D = Inr (?l4, ?b0)"
    unfolding vd_def
    by (rule receive_coordinator[where N = N, OF _ _ _ _ _ _ N lnk(2) lnk(3)[unfolded G_def] buf0 rng[unfolded vd_def G_def]])
       (simp_all add: coordinatorContext_def)
  let ?res = "\<lambda>r. scatter_pure (vd r) D g (length (vd r)) (buffers r)"
  let ?body = "\<lambda>r (l, bs).
               andThen (receive (workerContext N r) mesh l (buffers r) (length (buffers r)) D)
                 (\<lambda>(l', b). Inr (l', bs(r := b)))"
  let ?I = "\<lambda>r (s :: Links \<times> (nat \<Rightarrow> real list)).
              (\<forall>r' \<ge> r. toSlave (fst s) r' = toSlave ?l4 r') \<and>
              (\<forall>r'. snd s r' = (if r' < r then ?res r' else buffers r'))"
  have "\<exists>s'. for_loop [1..<N] ?body (?l4, buffers(0 := ?b0)) = Inr s' \<and> ?I N s'"
  proof (rule for_loop_upt_invariant[where I = ?I])
    show "?I 1 (?l4, buffers(0 := ?b0))" by auto
    show "1 \<le> N" using N by simp
    fix r s
    assume r: "1 \<le> r" "r < N" and inv: "?I r s"
    obtain l bs where s: "s = (l, bs)" by (cases s)
    show "\<exists>s'. ?body r s = Inr s' \<and> ?I (Suc r) s'"
    proof (cases "0 < length (buffers r)")
      case True
      then have pos: "0 < length (vd r) * D" using sz r by simp
      have q: "toSlave l r = [?msg r]"
        using inv s r pos lnk(1) by simp
      have eqm: "?msg r = ?res r"
      proof (rule nth_equalityI)
        show "length (?msg r) = length (?res r)" using sz r by simp
        fix k assume "k < length (?msg r)"
        then have "k < length (vd r) * D" by simp
        then show "?msg r ! k = ?res r ! k"
          using sz r by (simp add: scatter_pure_nth)
      qed
      have "receive (workerContext N r) mesh l (buffers r) (length (buffers r)) D =
              Inr (l\<lparr>toSlave := (toSlave l)(r := [])\<rparr>, ?msg r)"
        by (rule receive_worker[OF N q _ True]) (use sz r in simp)
      then have "?body r s = Inr (l\<lparr>toSlave := (toSlave l)(r := [])\<rparr>, bs(r := ?res r))"
        using s eqm by simp
      moreover have "?I (Suc r) (l\<lparr>toSlave := (toSlave l)(r := [])\<rparr>, bs(r := ?res r))"
        using inv s by (auto simp: less_Suc_eq)
      ultimately show ?thesis by blast
    next
      case False
      then have e: "buffers r = []" by simp
      have "length (buffers r) = length (vd r) * D" using sz r by blast
      then have z: "length (vd r) * D = 0" using e by simp
      have "?res r = []" using z e by (simp add: scatter_pure_empty)
      moreover have "receive (workerContext N r) mesh l (buffers r) (length (buffers r)) D = Inr (l, [])"
        using receive_worker_empty[OF N] e by simp
      ultimately have "?body r s = Inr (l, bs(r := ?res r))"
        using s by simp
      moreover have "?I (Suc r) (l, bs(r := ?res r))"
        using inv s by (auto simp: less_Suc_eq)
      ultimately show ?thesis by blast
    qed
  qed
  then obtain l bs where "for_loop [1..<N] ?body (?l4, buffers(0 := ?b0)) = Inr (l, bs)"
      "\<forall>r'. bs r' = (if r' < N then ?res r' else buffers r')"
    by auto
  then show ?thesis using rc by (simp add: receiveOnAllRanks_def)
qed

lemma roundTrip_result:
  fixes mesh :: Mesh
  defines "vd \<equiv> getVertexDistribution mesh"
  defines "G \<equiv> getGlobalNumberOfVertices mesh"
  assumes N: "1 < N"
    and sz: "\<forall>r < N. length (items r) = length (vd r) * D"
    and bsz: "\<forall>r < N. length (buffers r) = length (vd r) * D"
    and rng: "\<forall>r < N. \<forall>k \<in> set (vd r). k < G"
  shows "\<exists>out. roundTrip N mesh items buffers D = Inr out \<and>
           (\<forall>r < N. out r = scatter_pure (vd r) D (gatheredUpTo vd D items N (replicate (G * D) 0))
                               (length (vd r)) (buffers r))"
proof -
  let ?g = "gatheredUpTo vd D items N (replicate (G * D) 0)"
  obtain l where l: "sendOnAllRanks N mesh items D noMessages = Inr l"
      "toSlave l = (\<lambda>_. [])" "fromPeer l = []" "toPeer l = [?g]"
    using sendOnAllRanks_result[OF N sz[unfolded vd_def] rng[unfolded vd_def G_def]]
    unfolding vd_def G_def by blast
  have c: "toSlave (identityCoupling l) = (\<lambda>_. [])" "fromPeer (identityCoupling l) = [?g]"
    using l by (simp_all add: identityCoupling_def)
  have len: "length ?g = getGlobalNumberOfVertices mesh * D" by (simp add: G_def)
  obtain l' bs where r: "receiveOnAllRanks N mesh buffers D (identityCoupling l) = Inr (l', bs)"
      "\<forall>r < N. bs r = scatter_pure (vd r) D ?g (length (vd r)) (buffers r)"
    using receiveOnAllRanks_result[OF N c len bsz[unfolded vd_def] rng[unfolded vd_def G_def]]
    unfolding vd_def G_def by blast
  show ?thesis using l(1) r by (simp add: roundTrip_def)
qed

lemma scenario_gathered:
  "spec_globalItemsToSend (getVertexDistribution scenarioMesh) 1
     (\<lambda>r. if r = 0 then scenarioItems 0 else hd (toMaster scenarioPosted r)) 2 4 = [10, 20, 30, 40]"
  by code_simp

lemma scenario_wellformed:
  fixes r :: nat
  shows "1 < (2::nat)"
      "\<forall>r < 2. length (scenarioItems r) = length (getVertexDistribution scenarioMesh r) * 1"
      "\<forall>r < 2. length ((\<lambda>r. [0, 0 :: real]) r) = length (getVertexDistribution scenarioMesh r) * 1"
      "\<forall>r < 2. \<forall>k \<in> set (getVertexDistribution scenarioMesh r). k < getGlobalNumberOfVertices scenarioMesh"
  by (auto simp: less_2_cases_iff scenarioMesh_def scenarioItems_def)

lemma halo_wellformed:
  shows "1 < (2::nat)"
      "\<forall>r < 2. length (scenarioItems r) = length (getVertexDistribution haloMesh r) * 1"
      "\<forall>r < 2. length ((\<lambda>r. [0, 0 :: real]) r) = length (getVertexDistribution haloMesh r) * 1"
      "\<forall>r < 2. \<forall>k \<in> set (getVertexDistribution haloMesh r). k < getGlobalNumberOfVertices haloMesh"
  by (auto simp: less_2_cases_iff haloMesh_def scenarioItems_def)

lemma scenario_distinct: "\<forall>r < 2. distinct (getVertexDistribution scenarioMesh r)"
  by (simp add: scenarioMesh_def)

lemma halo_distinct: "\<forall>r < 2. distinct (getVertexDistribution haloMesh r)"
  by (simp add: haloMesh_def)

lemma sum_if_distinct_nth:
  fixes f :: "nat \<Rightarrow> real"
  assumes "distinct xs" "i < length xs"
  shows "(\<Sum>i' < length xs. if xs ! i' = xs ! i then f i' else 0) = f i"
proof -
  have "(\<Sum>i' < length xs. if xs ! i' = xs ! i then f i' else 0) =
        (\<Sum>i' < length xs. if i = i' then f i' else 0)"
    by (rule sum.cong) (use assms in \<open>auto simp: nth_eq_iff_index_eq\<close>)
  also have "\<dots> = f i" using assms(2) by simp
  finally show ?thesis .
qed

lemma sum_if_absent:
  fixes f :: "nat \<Rightarrow> real"
  assumes "g \<notin> set xs"
  shows "(\<Sum>i' < length xs. if xs ! i' = g then f i' else 0) = 0"
  by (rule sum.neutral) (use assms in auto)

lemma sum_other_rank_of_two:
  fixes f :: "nat \<Rightarrow> real"
  shows "(\<Sum>r' \<in> {..<2} - {0}. f r') = f 1" "(\<Sum>r' \<in> {..<2} - {1}. f r') = f 0"
proof -
  have "{..<2::nat} - {0} = {1}" "{..<2::nat} - {1} = {0}" by auto
  then show "(\<Sum>r' \<in> {..<2} - {0}. f r') = f 1" "(\<Sum>r' \<in> {..<2} - {1}. f r') = f 0" by simp_all
qed

lemma scenario_alone_rank0:
  "\<forall>r' < 2. r' \<noteq> 0 \<longrightarrow> getVertexDistribution scenarioMesh 0 ! i \<notin> set (getVertexDistribution scenarioMesh r')"
  if "i < 2" for i
  using that by (auto simp: scenarioMesh_def numeral_2_eq_2 less_Suc_eq)

lemma scenario_alone_rank1:
  "\<forall>r' < 2. r' \<noteq> 1 \<longrightarrow> getVertexDistribution scenarioMesh 1 ! i \<notin> set (getVertexDistribution scenarioMesh r')"
  if "i < 2" for i
  using that by (auto simp: scenarioMesh_def numeral_2_eq_2 less_Suc_eq)

lemma list_of_two:
  assumes "length xs = 2" "xs ! 0 = a" "xs ! 1 = b"
  shows "xs = [a, b]"
proof -
  obtain x y where "xs = [x, y]"
    using assms(1) by (cases xs; cases "tl xs") auto
  then show ?thesis using assms(2,3) by simp
qed

section \<open>Nearest-neighbor mapping: what \<open>map\<close> computes\<close>

text \<open>
  Claim C3. After \<open>computeMapping\<close>, for input and output data of equal value
  dimension \<open>D\<close> that pass the assertions of \<open>map\<close>: a consistent \<open>map\<close> returns
  with \<open>outputValues[i*D + d] = inputValues[_vertexIndices[i]*D + d]\<close> for every output
  vertex \<open>i\<close> and component \<open>d\<close>, whatever the output held before; a conservative
  \<open>map\<close> returns with every output entry equal to its previous value plus all input
  entries \<open>inputValues[i*D + d]\<close> whose \<open>_vertexIndices[i]\<close> names it, so it accumulates
  and does not zero the output. The R-tree query is assumed to answer every query
  with one position of the searched mesh, and local IDs to lie below the vertex count.
\<close>

theorem nearest_neighbor_map:
  assumes cm: "computeMapping nearest m0 = Inr m"
    and ids: "localIDs (vertices (input_mesh m0))" "localIDs (vertices (output_mesh m0))"
    and q1: "getConstraint m0 = CONSISTENT \<longrightarrow>
             answersQueries nearest (vertices (input_mesh m0)) (vertices (output_mesh m0))"
    and q2: "getConstraint m0 = CONSERVATIVE \<longrightarrow>
             answersQueries nearest (vertices (output_mesh m0)) (vertices (input_mesh m0))"
    and inD: "data (input_mesh m0) inputDataID = Some inData"
    and outD: "data (output_mesh m0) outputDataID = Some outData"
    and dims: "getDimensions inData = D" "getDimensions outData = D" "0 < D"
    and sz: "length (valuesOf inData) div D = length (vertices (input_mesh m0))"
            "length (valuesOf outData) div D = length (vertices (output_mesh m0))"
  shows "(getConstraint m0 = CONSISTENT \<longrightarrow>
           (\<exists>out. map_nn m inputDataID outputDataID = Inr out \<and>
              length out = length (valuesOf outData) \<and>
              (\<forall>i < length (vertices (output_mesh m0)). \<forall>d < D.
                 out ! (i * D + d) = valuesOf inData ! (vertexIndices m ! i * D + d)))) \<and>
         (getConstraint m0 = CONSERVATIVE \<longrightarrow>
           (\<exists>out. map_nn m inputDataID outputDataID = Inr out \<and>
              length out = length (valuesOf outData) \<and>
              (\<forall>g < length (vertices (output_mesh m0)). \<forall>d < D.
                 out ! (g * D + d) = valuesOf outData ! (g * D + d) +
                   (\<Sum>i < length (vertices (input_mesh m0)).
                      if vertexIndices m ! i = g then valuesOf inData ! (i * D + d) else 0))))"
proof (intro conjI impI)
  let ?nin = "length (vertices (input_mesh m0))" and ?nout = "length (vertices (output_mesh m0))"
  have b: "?nout * D \<le> length (valuesOf outData)"
    using sz(2) by (metis div_times_less_eq_dividend)
  {
    assume c: "getConstraint m0 = CONSISTENT"
    note cmf = computeMapping_consistent[OF cm c q1[rule_format, OF c] ids(1)]
    have eq: "map_nn m inputDataID outputDataID =
        Inr (scatter_pure (vertexIndices m) D (valuesOf inData) ?nout (valuesOf outData))"
      using map_nn_consistent[of m inputDataID inData outputDataID outData D] cmf inD outD dims sz
      by simp
    have "scatter_pure (vertexIndices m) D (valuesOf inData) ?nout (valuesOf outData) ! (i * D + d)
          = valuesOf inData ! (vertexIndices m ! i * D + d)" if "i < ?nout" "d < D" for i d
    proof -
      have lt: "i * D + d < ?nout * D" using index_bound[OF that] .
      then show ?thesis using that b by (simp add: scatter_pure_nth)
    qed
    then show "\<exists>out. map_nn m inputDataID outputDataID = Inr out \<and>
              length out = length (valuesOf outData) \<and>
              (\<forall>i < ?nout. \<forall>d < D.
                 out ! (i * D + d) = valuesOf inData ! (vertexIndices m ! i * D + d))"
      using eq by simp
  }
  {
    assume c: "getConstraint m0 = CONSERVATIVE"
    note cmf = computeMapping_conservative[OF cm c q2[rule_format, OF c] ids(2)]
    have eq: "map_nn m inputDataID outputDataID =
        Inr (gather_pure (vertexIndices m) D (valuesOf inData) ?nin (valuesOf outData))"
      using map_nn_conservative[of m inputDataID inData outputDataID outData D] cmf inD outD dims sz
      by simp
    have "gather_pure (vertexIndices m) D (valuesOf inData) ?nin (valuesOf outData) ! (g * D + d)
          = valuesOf outData ! (g * D + d) +
              (\<Sum>i < ?nin. if vertexIndices m ! i = g then valuesOf inData ! (i * D + d) else 0)"
      if "g < ?nout" "d < D" for g d
    proof -
      have "g * D + d < length (valuesOf outData)" using index_bound[OF that] b by simp
      then show ?thesis using that(2) by (rule gather_pure_nth_block)
    qed
    then show "\<exists>out. map_nn m inputDataID outputDataID = Inr out \<and>
              length out = length (valuesOf outData) \<and>
              (\<forall>g < ?nout. \<forall>d < D.
                 out ! (g * D + d) = valuesOf outData ! (g * D + d) +
                   (\<Sum>i < ?nin. if vertexIndices m ! i = g then valuesOf inData ! (i * D + d) else 0))"
      using eq by simp
  }
qed

theorem nearest_neighbor_map_witness:
  "(\<exists>out. map_nn (exampleMapping CONSISTENT [1] True) 0 0 = Inr out \<and> length out = 1 \<and> out ! 0 = 7) \<and>
   (\<exists>out. map_nn (exampleMapping CONSERVATIVE [0, 0] True) 0 0 = Inr out \<and> length out = 1 \<and> out ! 0 = 12)"
proof
  have ids: "localIDs (vertices (input_mesh (exampleMapping c [] False)))"
     "localIDs (vertices (output_mesh (exampleMapping c [] False)))" for c
    by (simp_all add: localIDs_def exampleMapping_def exampleInput_def exampleOutput_def)
  have q1: "answersQueries (\<lambda>vs c. [1]) (vertices (input_mesh (exampleMapping CONSISTENT [] False)))
              (vertices (output_mesh (exampleMapping CONSISTENT [] False)))"
    by (simp add: answersQueries_def exampleMapping_def exampleInput_def exampleOutput_def)
  have q2: "answersQueries (\<lambda>vs c. [0]) (vertices (output_mesh (exampleMapping CONSERVATIVE [] False)))
              (vertices (input_mesh (exampleMapping CONSERVATIVE [] False)))"
    by (simp add: answersQueries_def exampleMapping_def exampleInput_def exampleOutput_def)
  have inD: "data (input_mesh (exampleMapping c [] False)) 0 = Some \<lparr>valuesOf = [5, 7], getDimensions = 1\<rparr>" for c
    by (simp add: exampleMapping_def exampleInput_def)
  have outD: "data (output_mesh (exampleMapping c [] False)) 0 = Some \<lparr>valuesOf = [0], getDimensions = 1\<rparr>" for c
    by (simp add: exampleMapping_def exampleOutput_def)
  have gc: "getConstraint (exampleMapping c idx b) = c" for c idx b
    by (simp add: exampleMapping_def)
  have n: "length (vertices (input_mesh (exampleMapping c [] False))) = 2"
      "length (vertices (output_mesh (exampleMapping c [] False))) = 1" for c
    by (simp_all add: exampleMapping_def exampleInput_def exampleOutput_def)
  have A: "\<exists>out. map_nn (exampleMapping CONSISTENT [1] True) 0 0 = Inr out \<and>
              length out = length (valuesOf \<lparr>valuesOf = [0], getDimensions = 1\<rparr>) \<and>
              (\<forall>i < length (vertices (output_mesh (exampleMapping CONSISTENT [] False))). \<forall>d < 1.
                 out ! (i * 1 + d) = valuesOf \<lparr>valuesOf = [5, 7], getDimensions = 1\<rparr> 
                    ! (vertexIndices (exampleMapping CONSISTENT [1] True) ! i * 1 + d))"
    using nearest_neighbor_map[OF example_computeMapping_consistent ids _ _ inD outD, of 1]
      q1 n gc by simp
  then show "\<exists>out. map_nn (exampleMapping CONSISTENT [1] True) 0 0 = Inr out \<and> length out = 1 \<and> out ! 0 = 7"
    using n by (auto simp: exampleMapping_def)
  have B: "\<exists>out. map_nn (exampleMapping CONSERVATIVE [0, 0] True) 0 0 = Inr out \<and>
              length out = length (valuesOf \<lparr>valuesOf = [0], getDimensions = 1\<rparr>) \<and>
              (\<forall>g < length (vertices (output_mesh (exampleMapping CONSERVATIVE [] False))). \<forall>d < 1.
                 out ! (g * 1 + d) = valuesOf \<lparr>valuesOf = [0], getDimensions = 1\<rparr> ! (g * 1 + d) +
                   (\<Sum>i < length (vertices (input_mesh (exampleMapping CONSERVATIVE [] False))).
                      if vertexIndices (exampleMapping CONSERVATIVE [0, 0] True) ! i = g
                      then valuesOf \<lparr>valuesOf = [5, 7], getDimensions = 1\<rparr> ! (i * 1 + d) else 0))"
    using nearest_neighbor_map[OF example_computeMapping_conservative ids _ _ inD outD, of 1]
      q2 n gc by simp
  then show "\<exists>out. map_nn (exampleMapping CONSERVATIVE [0, 0] True) 0 0 = Inr out \<and> length out = 1 \<and> out ! 0 = 12"
    using n by (auto simp: exampleMapping_def numeral_2_eq_2)
qed

text \<open>
  Claim C4. For a computed conservative nearest-neighbor mapping, any value dimension
  and any input field of length vertex count times value dimension: if the output
  channel is all zeros before \<open>map\<close>, the sum of the output values after \<open>map\<close> equals
  the sum of the input values (exact arithmetic).
\<close>

theorem nearest_neighbor_conservative_sum:
  assumes cm: "computeMapping nearest m0 = Inr m"
    and c: "getConstraint m0 = CONSERVATIVE"
    and ids: "localIDs (vertices (output_mesh m0))"
    and q: "answersQueries nearest (vertices (output_mesh m0)) (vertices (input_mesh m0))"
    and inD: "data (input_mesh m0) inputDataID = Some inData"
    and outD: "data (output_mesh m0) outputDataID = Some outData"
    and dims: "getDimensions inData = D" "getDimensions outData = D" "0 < D"
    and sz: "length (valuesOf inData) = length (vertices (input_mesh m0)) * D"
            "length (valuesOf outData) = length (vertices (output_mesh m0)) * D"
    and zero: "\<forall>x \<in> set (valuesOf outData). x = 0"
  shows "\<exists>out. map_nn m inputDataID outputDataID = Inr out \<and>
           sum_list out = sum_list (valuesOf inData)"
proof -
  let ?nin = "length (vertices (input_mesh m0))" and ?nout = "length (vertices (output_mesh m0))"
  note cmf = computeMapping_conservative[OF cm c q ids]
  have eq: "map_nn m inputDataID outputDataID =
      Inr (gather_pure (vertexIndices m) D (valuesOf inData) ?nin (valuesOf outData))"
    using map_nn_conservative[of m inputDataID inData outputDataID outData D] cmf inD outD dims sz
    by simp
  have rng: "vertexIndices m ! i * D + D \<le> length (valuesOf outData)" if "i < ?nin" for i
  proof -
    have "vertexIndices m ! i < ?nout" using cmf that by simp
    then have "Suc (vertexIndices m ! i) * D \<le> ?nout * D" by (intro mult_le_mono1) simp
    then show ?thesis using sz(2) by simp
  qed
  have z: "sum_list (valuesOf outData) = 0"
    using zero by (rule sum_list_all_zero)
  have "sum_list (gather_pure (vertexIndices m) D (valuesOf inData) ?nin (valuesOf outData))
        = sum_list (valuesOf outData) + (\<Sum>i<?nin. \<Sum>d<D. valuesOf inData ! (i * D + d))"
    by (rule sum_list_gather_pure) (use rng in simp)
  also have "\<dots> = sum_list (valuesOf inData)"
    using z sum_list_blocks[OF sz(1)] by simp
  finally show ?thesis using eq by simp
qed


theorem nearest_neighbor_conservative_sum_witness:
  "\<exists>out. map_nn (exampleMapping CONSERVATIVE [0, 0] True) 0 0 = Inr out \<and> sum_list out = 12"
proof -
  have "\<exists>out. map_nn (exampleMapping CONSERVATIVE [0, 0] True) 0 0 = Inr out \<and>
           sum_list out = sum_list (valuesOf \<lparr>valuesOf = [5, 7], getDimensions = 1\<rparr>)"
  proof (rule nearest_neighbor_conservative_sum[OF example_computeMapping_conservative, where D = 1])
    show "getConstraint (exampleMapping CONSERVATIVE [] False) = CONSERVATIVE"
      by (simp add: exampleMapping_def)
    show "localIDs (vertices (output_mesh (exampleMapping CONSERVATIVE [] False)))"
      by (simp add: localIDs_def exampleMapping_def exampleOutput_def)
    show "answersQueries (\<lambda>vs c. [0]) (vertices (output_mesh (exampleMapping CONSERVATIVE [] False)))
              (vertices (input_mesh (exampleMapping CONSERVATIVE [] False)))"
      by (simp add: answersQueries_def exampleMapping_def exampleInput_def exampleOutput_def)
    show "data (input_mesh (exampleMapping CONSERVATIVE [] False)) 0 = Some \<lparr>valuesOf = [5, 7], getDimensions = 1\<rparr>"
      by (simp add: exampleMapping_def exampleInput_def)
    show "data (output_mesh (exampleMapping CONSERVATIVE [] False)) 0 = Some \<lparr>valuesOf = [0], getDimensions = 1\<rparr>"
      by (simp add: exampleMapping_def exampleOutput_def)
  qed (simp_all add: exampleMapping_def exampleInput_def exampleOutput_def)
  then show ?thesis by simp
qed

section \<open>Gather/scatter communication: gather and round trip\<close>

text \<open>
  Claim C2. On the coordinator of \<open>N > 1\<close> ranks, with every worker that owns a
  non-empty slice having posted a message of its slice's size, and all distribution
  entries below the global vertex count, \<open>send\<close> returns and has sent across the
  inter-participant link exactly the vector the spec describes: of length
  \<open>globalVertexCount * valueDimension\<close>, started at zero, with the contributions added
  rank 0 first and then the workers in ascending order. Its entry at
  \<open>g * valueDimension + d\<close> is the sum of the entries \<open>i * valueDimension + d\<close> of the
  contributions of all ranks and positions \<open>i\<close> whose distribution entry is \<open>g\<close>, so
  duplicated global indices are combined by summation.
\<close>

theorem send_gathers_by_summation:
  fixes mesh :: Mesh and lnk :: Links
  defines "vd \<equiv> getVertexDistribution mesh"
  defines "G \<equiv> getGlobalNumberOfVertices mesh"
  assumes ctx: "isMaster ms" "\<not> isSlave ms" "getRank ms = 0" "communicationSet ms"
      "communicationConnected ms" "getSize ms = N" "1 < N"
    and own: "length (vd 0) * D \<le> length itemsToSend"
    and posted: "\<forall>r. 1 \<le> r \<and> r < N \<and> 0 < length (vd r) * D \<longrightarrow>
                  toMaster lnk r \<noteq> [] \<and> length (hd (toMaster lnk r)) = length (vd r) * D"
    and rng: "\<forall>r < N. \<forall>g \<in> set (vd r). g < G"
    and contribution: "contribution = (\<lambda>r. if r = 0 then itemsToSend else hd (toMaster lnk r))"
  shows "\<exists>l'. send ms mesh lnk itemsToSend localSize D = Inr l' \<and>
           toPeer l' = toPeer lnk @ [spec_globalItemsToSend vd D contribution N G] \<and>
           length (spec_globalItemsToSend vd D contribution N G) = G * D \<and>
           (\<forall>g < G. \<forall>d < D.
              spec_globalItemsToSend vd D contribution N G ! (g * D + d) =
                (\<Sum>r < N. \<Sum>i < length (vd r). if vd r ! i = g then contribution r ! (i * D + d) else 0))"
proof -
  have "send ms mesh lnk itemsToSend localSize D =
           Inr (lnk\<lparr>toMaster := (\<lambda>r. if 1 \<le> r \<and> r < N \<and> 0 < length (vd r) * D
                                     then tl (toMaster lnk r) else toMaster lnk r),
                    toPeer := toPeer lnk @ [gatheredUpTo vd D contribution N (replicate (G * D) 0)]\<rparr>)"
    unfolding vd_def G_def
    by (rule send_coordinator[OF ctx own[unfolded vd_def] posted[unfolded vd_def] rng[unfolded vd_def G_def] contribution])
  moreover have "gatheredUpTo vd D contribution N (replicate (G * D) 0) ! (g * D + d) =
        (\<Sum>r < N. \<Sum>i < length (vd r). if vd r ! i = g then contribution r ! (i * D + d) else 0)"
    if "g < G" "d < D" for g d
    using gatheredUpTo_nth[of g D d "replicate (G * D) 0" vd contribution N] index_bound[OF that] that
    by simp
  ultimately show ?thesis
    by (simp add: spec_globalItemsToSend_eq)
qed

theorem send_gathers_by_summation_witness:
  "\<exists>l'. send (coordinatorContext 2) scenarioMesh scenarioPosted (scenarioItems 0) 2 1 = Inr l' \<and>
         toPeer l' = [[10, 20, 30, 40]]"
proof -
  let ?vd = "getVertexDistribution scenarioMesh"
  have r2: "r < 2 \<longleftrightarrow> r = 0 \<or> r = 1" for r :: nat by auto
  have own: "length (?vd 0) * 1 \<le> length (scenarioItems 0)"
    by (simp add: scenarioMesh_def scenarioItems_def)
  have posted: "\<forall>r. 1 \<le> r \<and> r < 2 \<and> 0 < length (?vd r) * 1 \<longrightarrow>
                  toMaster scenarioPosted r \<noteq> [] \<and> length (hd (toMaster scenarioPosted r)) = length (?vd r) * 1"
    by (auto simp: r2 scenarioMesh_def scenarioItems_def scenarioPosted_def noMessages_def)
  have rng: "\<forall>r < 2. \<forall>g \<in> set (?vd r). g < getGlobalNumberOfVertices scenarioMesh"
    by (auto simp: r2 scenarioMesh_def)
  have ctx: "isMaster (coordinatorContext 2)" "\<not> isSlave (coordinatorContext 2)"
      "getRank (coordinatorContext 2) = 0" "communicationSet (coordinatorContext 2)"
      "communicationConnected (coordinatorContext 2)" "getSize (coordinatorContext 2) = 2" "1 < (2::nat)"
    by (simp_all add: coordinatorContext_def)
  obtain l' where l': "send (coordinatorContext 2) scenarioMesh scenarioPosted (scenarioItems 0) 2 1 = Inr l'"
      "toPeer l' = toPeer scenarioPosted @ [spec_globalItemsToSend ?vd 1
              (\<lambda>r. if r = 0 then scenarioItems 0 else hd (toMaster scenarioPosted r)) 2
              (getGlobalNumberOfVertices scenarioMesh)]"
    using send_gathers_by_summation[OF ctx own posted rng refl, of 2] by blast
  have "getGlobalNumberOfVertices scenarioMesh = 4" by (simp add: scenarioMesh_def)
  moreover have "toPeer scenarioPosted = []" by (simp add: scenarioPosted_def noMessages_def)
  ultimately have "toPeer l' = [[10, 20, 30, 40]]"
    using l'(2) scenario_gathered by simp
  then show ?thesis using l'(1) by blast
qed

text \<open>
  Claim C1. For \<open>N > 1\<close> ranks whose slices of the vertex distribution list every global
  index at most once, with entries below the global vertex count, and whose local
  vectors and receive buffers have the size of their slice: send on all ranks, the
  identity coupling, then receive on all ranks returns on every rank a vector of the
  local size whose entry for position \<open>i\<close> and component \<open>d\<close> is the original entry plus
  the entries that the other ranks sent for the same global index. An entry whose global
  index is in no other rank's slice comes back unchanged; so every rank gets back its
  slice for the distribution \<open>{rank 0: [0, 1], rank 1: [2, 3]}\<close> with input
  \<open>[10, 20, 30, 40]\<close>.
\<close>

theorem gather_scatter_round_trip:
  fixes mesh :: Mesh
  defines "vd \<equiv> getVertexDistribution mesh"
  defines "G \<equiv> getGlobalNumberOfVertices mesh"
  assumes N: "1 < N"
    and sz: "\<forall>r < N. length (items r) = length (vd r) * D"
    and bsz: "\<forall>r < N. length (buffers r) = length (vd r) * D"
    and rng: "\<forall>r < N. \<forall>k \<in> set (vd r). k < G"
    and dis: "\<forall>r < N. distinct (vd r)"
  shows "\<exists>out. roundTrip N mesh items buffers D = Inr out \<and>
           (\<forall>r < N. length (out r) = length (items r) \<and>
              (\<forall>i < length (vd r). \<forall>d < D.
                 out r ! (i * D + d) = items r ! (i * D + d) +
                   (\<Sum>r' \<in> {..<N} - {r}. \<Sum>i' < length (vd r').
                      if vd r' ! i' = vd r ! i then items r' ! (i' * D + d) else 0) \<and>
                 ((\<forall>r' < N. r' \<noteq> r \<longrightarrow> vd r ! i \<notin> set (vd r')) \<longrightarrow>
                    out r ! (i * D + d) = items r ! (i * D + d))))"
proof -
  let ?g = "gatheredUpTo vd D items N (replicate (G * D) 0)"
  let ?f = "\<lambda>g d r'. \<Sum>i' < length (vd r'). if vd r' ! i' = g then items r' ! (i' * D + d) else (0::real)"
  obtain out where out: "roundTrip N mesh items buffers D = Inr out"
      "\<forall>r < N. out r = scatter_pure (vd r) D ?g (length (vd r)) (buffers r)"
    using roundTrip_result[OF N sz[unfolded vd_def] bsz[unfolded vd_def] rng[unfolded vd_def G_def]]
    unfolding vd_def G_def by blast
  have main: "out r ! (i * D + d) = items r ! (i * D + d) + (\<Sum>r' \<in> {..<N} - {r}. ?f (vd r ! i) d r')"
    if "r < N" "i < length (vd r)" "d < D" for r i d
  proof -
    have k: "i * D + d < length (vd r) * D" using index_bound[OF that(2,3)] .
    have D: "0 < D" using that(3) by simp
    have "out r ! (i * D + d) = ?g ! (vd r ! i * D + d)"
      using out(2) that k bsz D by (simp add: scatter_pure_nth)
    also have "\<dots> = (\<Sum>r' < N. ?f (vd r ! i) d r')"
    proof -
      have "vd r ! i < G" using rng that by simp
      then have "vd r ! i * D + d < G * D" using index_bound that(3) by blast
      then show ?thesis
        using gatheredUpTo_nth[of "vd r ! i" D d "replicate (G * D) 0" vd items N] that(3) by simp
    qed
    also have "\<dots> = ?f (vd r ! i) d r + (\<Sum>r' \<in> {..<N} - {r}. ?f (vd r ! i) d r')"
      by (rule sum.remove) (use that(1) in simp_all)
    also have "?f (vd r ! i) d r = items r ! (i * D + d)"
    proof -
      have "distinct (vd r)" using dis that(1) by simp
      then show ?thesis
        using sum_if_distinct_nth[of "vd r" i "\<lambda>i'. items r ! (i' * D + d)"] that(2) by simp
    qed
    finally show ?thesis .
  qed
  have alone: "out r ! (i * D + d) = items r ! (i * D + d)"
    if "r < N" "i < length (vd r)" "d < D" "\<forall>r' < N. r' \<noteq> r \<longrightarrow> vd r ! i \<notin> set (vd r')" for r i d
  proof -
    have "(\<Sum>r' \<in> {..<N} - {r}. ?f (vd r ! i) d r') = 0"
    proof (rule sum.neutral, rule ballI)
      fix r' assume "r' \<in> {..<N} - {r}"
      then have "vd r ! i \<notin> set (vd r')" using that(4) by simp
      then show "?f (vd r ! i) d r' = 0"
        using sum_if_absent[of "vd r ! i" "vd r'" "\<lambda>i'. items r' ! (i' * D + d)"] by simp
    qed
    then show ?thesis using main[OF that(1,2,3)] by simp
  qed
  have len: "length (out r) = length (items r)" if "r < N" for r
    using out(2) that sz bsz by simp
  show ?thesis
    using out(1) main alone len by blast
qed

theorem gather_scatter_round_trip_witness:
  "(\<exists>out. roundTrip 2 scenarioMesh scenarioItems (\<lambda>r. [0, 0]) 1 = Inr out \<and>
          out 0 = [10, 20] \<and> out 1 = [30, 40]) \<and>
   (\<exists>out. roundTrip 2 haloMesh scenarioItems (\<lambda>r. [0, 0]) 1 = Inr out \<and>
          out 0 = [10, 50] \<and> out 1 = [50, 40])"
proof
  let ?vd = "getVertexDistribution scenarioMesh"
  have vd: "?vd 0 = [0, 1]" "?vd 1 = [2, 3]" by (simp_all add: scenarioMesh_def)
  from gather_scatter_round_trip[OF scenario_wellformed scenario_distinct]
  obtain out where out: "roundTrip 2 scenarioMesh scenarioItems (\<lambda>r. [0, 0]) 1 = Inr out"
    and Q: "\<forall>r < 2. length (out r) = length (scenarioItems r) \<and>
              (\<forall>i < length (?vd r). \<forall>d < 1.
                 out r ! (i * 1 + d) = scenarioItems r ! (i * 1 + d) +
                   (\<Sum>r' \<in> {..<2} - {r}. \<Sum>i' < length (?vd r').
                      if ?vd r' ! i' = ?vd r ! i then scenarioItems r' ! (i' * 1 + d) else 0) \<and>
                 ((\<forall>r' < 2. r' \<noteq> r \<longrightarrow> ?vd r ! i \<notin> set (?vd r')) \<longrightarrow>
                    out r ! (i * 1 + d) = scenarioItems r ! (i * 1 + d)))"
    by blast
  have z: "(0::nat) < 2" "(1::nat) < 2" "(0::nat) < 1" by simp_all
  note Q0 = Q[rule_format, OF z(1)] and Q1 = Q[rule_format, OF z(2)]
  have e0: "out 0 ! i = scenarioItems 0 ! i" if "i < 2" for i
  proof -
    have "i < length (?vd 0)" using that vd by simp
    from Q0[THEN conjunct2, rule_format, OF this z(3), THEN conjunct2, THEN mp, OF scenario_alone_rank0[OF that]]
    show ?thesis by simp
  qed
  have e1: "out 1 ! i = scenarioItems 1 ! i" if "i < 2" for i
  proof -
    have "i < length (?vd 1)" using that vd by simp
    from Q1[THEN conjunct2, rule_format, OF this z(3), THEN conjunct2, THEN mp, OF scenario_alone_rank1[OF that]]
    show ?thesis by simp
  qed
  have len: "length (out 0) = 2" "length (out 1) = 2"
    using Q0[THEN conjunct1] Q1[THEN conjunct1] by (simp_all add: scenarioItems_def)
  have "out 0 = [10, 20]"
    by (rule list_of_two) (use len e0[of 0] e0[of 1] in \<open>simp_all add: scenarioItems_def\<close>)
  moreover have "out 1 = [30, 40]"
    by (rule list_of_two) (use len e1[of 0] e1[of 1] in \<open>simp_all add: scenarioItems_def\<close>)
  ultimately show "\<exists>out. roundTrip 2 scenarioMesh scenarioItems (\<lambda>r. [0, 0]) 1 = Inr out \<and>
          out 0 = [10, 20] \<and> out 1 = [30, 40]" using out by blast
next
  let ?vd = "getVertexDistribution haloMesh"
  have vd: "?vd 0 = [0, 1]" "?vd 1 = [1, 2]" by (simp_all add: haloMesh_def)
  from gather_scatter_round_trip[OF halo_wellformed halo_distinct]
  obtain out where out: "roundTrip 2 haloMesh scenarioItems (\<lambda>r. [0, 0]) 1 = Inr out"
    and Q: "\<forall>r < 2. length (out r) = length (scenarioItems r) \<and>
              (\<forall>i < length (?vd r). \<forall>d < 1.
                 out r ! (i * 1 + d) = scenarioItems r ! (i * 1 + d) +
                   (\<Sum>r' \<in> {..<2} - {r}. \<Sum>i' < length (?vd r').
                      if ?vd r' ! i' = ?vd r ! i then scenarioItems r' ! (i' * 1 + d) else 0) \<and>
                 ((\<forall>r' < 2. r' \<noteq> r \<longrightarrow> ?vd r ! i \<notin> set (?vd r')) \<longrightarrow>
                    out r ! (i * 1 + d) = scenarioItems r ! (i * 1 + d)))"
    by blast
  have z: "(0::nat) < 2" "(1::nat) < 2" "(0::nat) < 1" by simp_all
  note Q0 = Q[rule_format, OF z(1)] and Q1 = Q[rule_format, OF z(2)]
  have l0: "0 < length (?vd 0)" "1 < length (?vd 0)" and l1: "0 < length (?vd 1)" "1 < length (?vd 1)"
    using vd by simp_all
  have e00: "out 0 ! 0 = 10"
    using Q0[THEN conjunct2, rule_format, OF l0(1) z(3), THEN conjunct1]
    by (simp add: sum_other_rank_of_two haloMesh_def scenarioItems_def)
  have e01: "out 0 ! 1 = 50"
    using Q0[THEN conjunct2, rule_format, OF l0(2) z(3), THEN conjunct1]
    by (simp add: sum_other_rank_of_two haloMesh_def scenarioItems_def)
  have e10: "out 1 ! 0 = 50"
    using Q1[THEN conjunct2, rule_format, OF l1(1) z(3), THEN conjunct1]
    by (simp add: sum_other_rank_of_two haloMesh_def scenarioItems_def)
  have e11: "out 1 ! 1 = 40"
    using Q1[THEN conjunct2, rule_format, OF l1(2) z(3), THEN conjunct1]
    by (simp add: sum_other_rank_of_two haloMesh_def scenarioItems_def)
  have len: "length (out 0) = 2" "length (out 1) = 2"
    using Q0[THEN conjunct1] Q1[THEN conjunct1] by (simp_all add: scenarioItems_def)
  have "out 0 = [10, 50]"
    by (rule list_of_two) (use len e00 e01 in simp_all)
  moreover have "out 1 = [50, 40]"
    by (rule list_of_two) (use len e10 e11 in simp_all)
  ultimately show "\<exists>out. roundTrip 2 haloMesh scenarioItems (\<lambda>r. [0, 0]) 1 = Inr out \<and>
          out 0 = [10, 50] \<and> out 1 = [50, 40]" using out by blast
qed

section \<open>Facts about the P-Greedy solver\<close>

lemma sum_list_upt: "sum_list (map f [0..<n]) = (\<Sum>k<n. f k)"
  by (simp add: interv_sum_list_conv_sum_set_nat lessThan_atLeast0)

lemma matVec_nth:
  assumes "ncols M = length x"
  shows "\<exists>y. matVec M x = Inr y \<and> length y = nrows M \<and>
           (\<forall>i < nrows M. y ! i = (\<Sum>k < ncols M. coeff M i k * x ! k))"
  using assms by (simp add: matVec_def sum_list_upt)

lemma computeSquaredDifference2_all:
  "computeSquaredDifference2 (u0, u1, u2) (v0, v1, v2) (True, True, True) =
     (u0 - v0)\<^sup>2 + (u1 - v1)\<^sup>2 + (u2 - v2)\<^sup>2"
  by (simp add: computeSquaredDifference2_def Let_def power2_eq_square)

lemma computeSquaredDifference2_self [simp]: "computeSquaredDifference2 u u a = 0"
  by (cases u; cases a) (simp add: computeSquaredDifference2_def)

lemma kernelValue_self [simp]: "kernelValue evaluate x x = evaluate 0"
  by (simp add: kernelValue_def)

lemma updateKernelVector_map:
  assumes "length kv = length (vertices inputMesh)"
  shows "updateKernelVector evaluate inputMesh kv x = Inr (map (kernelValue evaluate x) (vertices inputMesh))"
proof -
  let ?V = "vertices inputMesh" and ?m = "length (vertices inputMesh)"
  let ?I = "\<lambda>j (v::real list). length v = ?m \<and> (\<forall>k < j. v ! k = kernelValue evaluate x (?V ! k))"
  have "\<exists>s'. for_loop [0..<?m] (\<lambda>j kv. write_at kv j (kernelValue evaluate x (?V ! j))) kv = Inr s' \<and> ?I ?m s'"
  proof (rule for_loop_upt_invariant[where I = ?I])
    show "?I 0 kv" using assms by simp
    show "0 \<le> ?m" by simp
    fix j s
    assume "0 \<le> j" "j < ?m" "?I j s"
    then show "\<exists>s'. write_at s j (kernelValue evaluate x (?V ! j)) = Inr s' \<and> ?I (Suc j) s'"
      by (auto simp: nth_list_update less_Suc_eq)
  qed
  then obtain v where v: "updateKernelVector evaluate inputMesh kv x = Inr v" "?I ?m v"
    by (auto simp: updateKernelVector_def)
  have "v = map (kernelValue evaluate x) ?V"
    by (rule nth_equalityI) (use v(2) in auto)
  then show ?thesis using v(1) by simp
qed

lemma buildEvaluationMatrix_entries:
  assumes "\<forall>k \<in> set ids. k < length (vertices inputMesh)"
  shows "\<exists>E. buildEvaluationMatrix evaluate outputMesh inputMesh ids = Inr E \<and>
           nrows E = length ids \<and> ncols E = length (vertices outputMesh) \<and>
           (\<forall>i < length ids. \<forall>j < length (vertices outputMesh).
              coeff E i j = kernelValue evaluate (vertices inputMesh ! (ids ! i)) (vertices outputMesh ! j))"
proof -
  let ?V = "vertices inputMesh" and ?W = "vertices outputMesh"
  let ?K = "\<lambda>i j. kernelValue evaluate (?V ! (ids ! i)) (?W ! j)"
  let ?inner = "\<lambda>i u j (A'::Matrix). (Inr (A'\<lparr>coeff := (coeff A')(i := (coeff A' i)
                                  (j := kernelValue evaluate u (?W ! j)))\<rparr>) :: error + Matrix)"
  let ?J = "\<lambda>i j (A::Matrix). nrows A = length ids \<and> ncols A = length ?W \<and>
              (\<forall>i' < i. \<forall>j' < length ?W. coeff A i' j' = ?K i' j') \<and>
              (\<forall>j' < j. coeff A i j' = ?K i j')"
  let ?I = "\<lambda>i (A::Matrix). nrows A = length ids \<and> ncols A = length ?W \<and>
              (\<forall>i' < i. \<forall>j' < length ?W. coeff A i' j' = ?K i' j')"
  let ?body = "\<lambda>i A. andThen (read_at ?V (ids ! i)) (\<lambda>u. for_loop [0..<length ?W] (?inner i u) A)"
  have "\<exists>s'. for_loop [0..<length ids] ?body (Zero (length ids) (length ?W)) = Inr s' \<and> ?I (length ids) s'"
  proof (rule for_loop_upt_invariant[where I = ?I])
    show "?I 0 (Zero (length ids) (length ?W))" by (simp add: Zero_def)
    show "0 \<le> length ids" by simp
    fix i A
    assume i: "0 \<le> i" "i < length ids" and inv: "?I i A"
    have r: "read_at ?V (ids ! i) = Inr (?V ! (ids ! i))"
      using assms i by simp
    have "\<exists>s'. for_loop [0..<length ?W] (?inner i (?V ! (ids ! i))) A = Inr s' \<and> ?J i (length ?W) s'"
    proof (rule for_loop_upt_invariant[where I = "?J i"])
      show "?J i 0 A" using inv by simp
      show "0 \<le> length ?W" by simp
      fix j A'
      assume "0 \<le> j" "j < length ?W" "?J i j A'"
      then show "\<exists>s'. ?inner i (?V ! (ids ! i)) j A' = Inr s' \<and> ?J i (Suc j) s'"
        by (auto simp: less_Suc_eq)
    qed
    then obtain A2 where A2: "for_loop [0..<length ?W] (?inner i (?V ! (ids ! i))) A = Inr A2" "?J i (length ?W) A2"
      by blast
    have "?I (Suc i) A2" using A2(2) by (auto simp: less_Suc_eq)
    then show "\<exists>s'. ?body i A = Inr s' \<and> ?I (Suc i) s'"
      using r A2(1) by simp
  qed
  then show ?thesis by (auto simp: buildEvaluationMatrix_def Let_def)
qed

lemma activeAxisOf_ok: "length deadAxis \<le> 3 \<Longrightarrow> \<exists>a. activeAxisOf deadAxis = Inr a"
  by (simp add: activeAxisOf_def)

lemma maxCoeff_fold:
  fixes xs :: "real list"
  assumes "1 \<le> n" "n \<le> length xs"
  shows "case fold (\<lambda>j (bi, bv). if bv < xs ! j then (j, xs ! j) else (bi, bv)) [1..<n] (0, xs ! 0) of
           (i, v) \<Rightarrow> i < n \<and> v = xs ! i \<and> (\<forall>j < n. xs ! j \<le> v)"
  using assms
proof (induction n)
  case 0
  then show ?case by simp
next
  case (Suc n)
  show ?case
  proof (cases "n = 0")
    case True
    then show ?thesis by simp
  next
    case False
    then have "1 \<le> n" "n \<le> length xs" using Suc.prems by auto
    from Suc.IH[OF this] False show ?thesis
      by (auto simp: less_Suc_eq split: prod.splits)
  qed
qed

lemma maxCoeff_props:
  assumes "maxCoeff xs = Inr (i, v)"
  shows "i < length xs" "v = xs ! i" "\<forall>j < length xs. xs ! j \<le> v"
proof -
  have ne: "xs \<noteq> []" using assms by (auto simp: maxCoeff_def split: if_splits)
  then have "1 \<le> length xs" by (cases xs) auto
  from maxCoeff_fold[OF this le_refl] assms ne
  show "i < length xs" "v = xs ! i" "\<forall>j < length xs. xs ! j \<le> v"
    by (auto simp: maxCoeff_def)
qed

lemma maxCoeff_total: "xs \<noteq> [] \<Longrightarrow> \<exists>i v. maxCoeff xs = Inr (i, v)"
  by (simp add: maxCoeff_def split_paired_Ex[symmetric])

lemma maxCoeff_Max:
  assumes "maxCoeff xs = Inr (i, v)"
  shows "v = Max (set xs)"
proof -
  note p = maxCoeff_props[OF assms]
  have "v \<in> set xs" using p(1,2) by simp
  moreover have "\<forall>x \<in> set xs. x \<le> v" using p(3) by (auto simp: in_set_conv_nth)
  ultimately have "Max (set xs) = v" by (intro Max_eqI) auto
  then show ?thesis by simp
qed

lemma newton_loop:
  fixes B :: Matrix and v0 p :: "real list" and n i :: nat and sqrtP :: real
  defines "nv \<equiv> (\<lambda>j. (v0 ! j - (\<Sum>k < n. coeff B j k * coeff B i k)) / sqrtP)"
  assumes len: "length bits = m" "length v0 = m" "length p = m" "nrows B = m" "i < m" "n \<le> ncols B"
  shows "\<exists>v1 p1. for_loop [0..<m] (newtonStep B bits i n sqrtP) (v0, p) = Inr (v1, p1) \<and>
           length v1 = m \<and> length p1 = m \<and>
           (\<forall>j < m. v1 ! j = (if bits ! j then v0 ! j else nv j) \<and>
                     p1 ! j = (if bits ! j then p ! j else p ! j - nv j * nv j))"
proof -
  let ?I = "\<lambda>j (s :: real list \<times> real list).
     length (fst s) = m \<and> length (snd s) = m \<and>
     (\<forall>k < m. fst s ! k = (if k < j \<and> \<not> bits ! k then nv k else v0 ! k) \<and>
               snd s ! k = (if k < j \<and> \<not> bits ! k then p ! k - nv k * nv k else p ! k))"
  have "\<exists>s'. for_loop [0..<m] (newtonStep B bits i n sqrtP) (v0, p) = Inr s' \<and> ?I m s'"
  proof (rule for_loop_upt_invariant[where I = ?I])
    show "?I 0 (v0, p)" using len by simp
    show "0 \<le> m" by simp
    fix j s
    assume j: "0 \<le> j" "j < m" and inv: "?I j s"
    obtain v p' where s: "s = (v, p')" by (cases s)
    have rd: "rowDot B j i n = Inr (\<Sum>k < n. coeff B j k * coeff B i k)"
      using len j by (simp add: rowDot_def sum_list_upt)
    have vj: "v ! j = v0 ! j" and pj: "p' ! j = p ! j" using inv s j by auto
    show "\<exists>s'. newtonStep B bits i n sqrtP j s = Inr s' \<and> ?I (Suc j) s'"
    proof (cases "bits ! j")
      case True
      then have "newtonStep B bits i n sqrtP j s = Inr s"
        using s len j by (simp add: newtonStep_def)
      moreover have "?I (Suc j) s" using inv True by (auto simp: less_Suc_eq)
      ultimately show ?thesis by blast
    next
      case False
      have "newtonStep B bits i n sqrtP j s = Inr (v[j := nv j], p'[j := p ! j - nv j * nv j])"
        using s len j False rd inv vj pj by (simp add: newtonStep_def nv_def)
      moreover have "?I (Suc j) (v[j := nv j], p'[j := p ! j - nv j * nv j])"
        using inv s False j by (auto simp: less_Suc_eq nth_list_update)
      ultimately show ?thesis by blast
    qed
  qed
  then show ?thesis by auto
qed

lemma tolP_pos: "0 < tolP"
  by (simp add: tolP_def)

lemma distinct_bounded_length:
  assumes "distinct xs" "\<forall>x \<in> set xs. x < (m::nat)"
  shows "length xs \<le> m"
proof -
  have "card (set xs) \<le> card {..<m}"
    by (rule card_mono) (use assms(2) in auto)
  then show ?thesis using assms(1) by (simp add: distinct_card)
qed

lemma selectCenter_step:
  fixes evaluate :: "real \<Rightarrow> real" and inputMesh :: Mesh
  defines "m \<equiv> length (vertices inputMesh)"
  assumes inv: "selectionInvariant evaluate inputMesh n st"
    and n: "n < maxIter"
    and sel: "select (solver st) = Inr (i, pMax)"
    and big: "\<not> pMax < tolP"
  shows "\<exists>st'. selectCenter evaluate inputMesh n i pMax (vertices inputMesh ! i) st = Inr st' \<and>
           selectionInvariant evaluate inputMesh (Suc n) st' \<and>
           greedyIDs (solver st') = greedyIDs (solver st) @ [i] \<and>
           i < m \<and> \<not> centerBits st ! i \<and> i \<notin> set (greedyIDs (solver st)) \<and>
           kernelVector st' ! i = sqrt pMax \<and>
           powerFunction (solver st') ! i = 0 \<and>
           (\<forall>j < m. powerFunction (solver st') ! j \<le> powerFunction (solver st) ! j)"
proof -
  let ?s = "solver st" and ?V = "vertices inputMesh"
  let ?B = "basisMatrix (solver st)" and ?p = "powerFunction (solver st)" and ?bits = "centerBits st"
  let ?ids = "greedyIDs (solver st)" and ?W = "min m maxIter"
  have I: "inSize ?s = m" "length ?p = m" "length (kernelVector st) = m" "length ?bits = m"
      "nrows ?B = m" "ncols ?B = ?W" "nrows (cut ?s) = ?W" "ncols (cut ?s) = ?W"
      "length ?ids = n" "distinct ?ids" "set ?ids = {j. j < m \<and> ?bits ! j}"
      "\<forall>j < m. ?p ! j = (if ?bits ! j then 0 else evaluate 0 - (\<Sum>k < n. coeff ?B j k * coeff ?B j k))"
    using inv unfolding selectionInvariant_def m_def Let_def by blast+
  have mc: "maxCoeff ?p = Inr (i, pMax)" using sel by (simp add: select_def)
  note mp = maxCoeff_props[OF mc]
  have im: "i < m" using mp(1) I(2) by simp
  have pos: "0 < pMax" using big tolP_pos by linarith
  have nb: "\<not> ?bits ! i"
  proof
    assume "?bits ! i"
    then have "?p ! i = 0" using I(12) im by simp
    then show False using mp(2) pos by simp
  qed
  have notin: "i \<notin> set ?ids" using I(11) nb by simp
  have nm: "n < m"
  proof -
    have "length (?ids @ [i]) \<le> m"
      by (rule distinct_bounded_length) (use I(10,11) notin im in auto)
    then show ?thesis using I(9) by simp
  qed
  have nW: "n < ?W" using nm n by simp
  let ?v0 = "map (kernelValue evaluate (?V ! i)) ?V"
  have uk: "updateKernelVector evaluate inputMesh (kernelVector st) (?V ! i) = Inr ?v0"
    by (rule updateKernelVector_map) (use I(3) in \<open>simp add: m_def\<close>)
  have v0i: "?v0 ! i = evaluate 0" using im by (simp add: m_def)
  let ?nv = "\<lambda>j. (?v0 ! j - (\<Sum>k < n. coeff ?B j k * coeff ?B i k)) / sqrt pMax"
  obtain v1 p1 where nl: "for_loop [0..<m] (newtonStep ?B ?bits i n (sqrt pMax)) (?v0, ?p) = Inr (v1, p1)"
      "length v1 = m" "length p1 = m"
      "\<forall>j < m. v1 ! j = (if ?bits ! j then ?v0 ! j else ?nv j) \<and>
                p1 ! j = (if ?bits ! j then ?p ! j else ?p ! j - ?nv j * ?nv j)"
    using newton_loop[of ?bits m ?v0 ?p ?B i n "sqrt pMax"] I im nW by (auto simp: m_def)
  have nvi: "?nv i = sqrt pMax"
  proof -
    have "?p ! i = evaluate 0 - (\<Sum>k < n. coeff ?B i k * coeff ?B i k)" using I(12) im nb by simp
    then have "?nv i = pMax / sqrt pMax" using v0i mp(2) by simp
    then show ?thesis using pos by (simp add: real_div_sqrt)
  qed
  have v1i: "v1 ! i = sqrt pMax" using nl(4) im nb nvi by simp
  have p1i: "p1 ! i = 0"
  proof -
    have "?nv i * ?nv i = sqrt pMax * sqrt pMax" by (simp only: nvi)
    then have sq: "?nv i * ?nv i = ?p ! i" using pos mp(2) by simp
    have "p1 ! i = ?p ! i - ?nv i * ?nv i" using nl(4) im nb by simp
    then have "p1 ! i = ?p ! i - ?p ! i" by (simp only: sq)
    then show ?thesis by simp
  qed
  let ?bits' = "?bits[i := True]"
  have wb: "write_at ?bits i True = Inr ?bits'" using im I(4) by simp
  let ?B' = "?B\<lparr>coeff := (\<lambda>r c. if c = n \<and> r < nrows ?B then v1 ! r else coeff ?B r c)\<rparr>"
  have sc: "setCol ?B n v1 = Inr ?B'" using nW I nl(2) by (simp add: setCol_def)
  obtain C' where uc: "updateCut (cut ?s) ?B' n i v1 = Inr C'" "nrows C' = ?W" "ncols C' = ?W"
    using nW I im nl(2) by (simp add: updateCut_def Let_def)
  let ?st' = "\<lparr>solver = ?s\<lparr>greedyIDs := ?ids @ [i], powerFunction := p1, basisMatrix := ?B', cut := C'\<rparr>,
               kernelVector = v1, centerBits = ?bits'\<rparr>"
  have run: "selectCenter evaluate inputMesh n i pMax (?V ! i) st = Inr ?st'"
    using uk nl(1) wb sc uc(1) I(1) by (simp add: selectCenter_def Let_def)
  have pw: "p1 ! j = (if ?bits' ! j then 0 else evaluate 0 - (\<Sum>k < Suc n. coeff ?B' j k * coeff ?B' j k))"
    if j: "j < m" for j
  proof (cases "j = i")
    case True
    then show ?thesis using p1i im I(4) by simp
  next
    case ne: False
    show ?thesis
    proof (cases "?bits ! j")
      case True
      then have "p1 ! j = 0" using nl(4) I(12) j by simp
      then show ?thesis using True ne by simp
    next
      case False
      have old: "(\<Sum>k < n. coeff ?B' j k * coeff ?B' j k) = (\<Sum>k < n. coeff ?B j k * coeff ?B j k)"
        by (rule sum.cong) auto
      have new: "coeff ?B' j n = ?nv j" using j I(5) nl(4) False by simp
      have "p1 ! j = ?p ! j - ?nv j * ?nv j" using nl(4) j False by simp
      also have "?p ! j = evaluate 0 - (\<Sum>k < n. coeff ?B j k * coeff ?B j k)" using I(12) j False by simp
      finally have "p1 ! j = evaluate 0 - (\<Sum>k < Suc n. coeff ?B' j k * coeff ?B' j k)"
        using old new by simp
      then show ?thesis using False ne by simp
    qed
  qed
  have set': "set (?ids @ [i]) = {j. j < m \<and> ?bits' ! j}"
    using I(11) I(4) im by (auto simp: nth_list_update)
  have inv': "selectionInvariant evaluate inputMesh (Suc n) ?st'"
    unfolding selectionInvariant_def Let_def m_def[symmetric]
    using I nl(2,3) uc(2,3) notin set' pw by simp
  have mono: "p1 ! j \<le> ?p ! j" if "j < m" for j
    using nl(4) that by simp
  show ?thesis
    using run inv' im nb notin v1i p1i mono by simp
qed

declare selectionLoop.simps [simp del]

lemma initial_invariant:
  "selectionInvariant evaluate inputMesh 0 (initialSelection evaluate inputMesh outputMesh)"
  by (simp add: selectionInvariant_def initialSelection_def Let_def Zero_def)

lemma atIteration_invariant:
  assumes "atIteration evaluate inputMesh outputMesh n st"
  shows "selectionInvariant evaluate inputMesh n st \<and> n \<le> maxIter"
  using assms
proof (induction rule: atIteration.induct)
  case at_start
  then show ?case by (simp add: initial_invariant)
next
  case (at_next n st i pMax x st')
  then have inv: "selectionInvariant evaluate inputMesh n st" by simp
  have x: "x = vertices inputMesh ! i"
    using at_next.hyps(4) by (auto simp: read_at_def split: if_splits)
  obtain st2 where "selectCenter evaluate inputMesh n i pMax (vertices inputMesh ! i) st = Inr st2"
      "selectionInvariant evaluate inputMesh (Suc n) st2"
    using selectCenter_step[OF inv at_next.hyps(2,3,5)] by blast
  then show ?case using at_next.hyps(2,6) x by simp
qed

lemma select_total:
  assumes "selectionInvariant evaluate inputMesh n st" "vertices inputMesh \<noteq> []"
  shows "\<exists>i pMax. select (solver st) = Inr (i, pMax) \<and> i < length (vertices inputMesh) \<and>
           pMax = Max (set (powerFunction (solver st)))"
proof -
  have len: "length (powerFunction (solver st)) = length (vertices inputMesh)"
    using assms(1) unfolding selectionInvariant_def Let_def by blast
  then have "powerFunction (solver st) \<noteq> []" using assms(2) by auto
  then obtain i v where iv: "maxCoeff (powerFunction (solver st)) = Inr (i, v)"
    using maxCoeff_total by blast
  then show ?thesis
    using maxCoeff_props(1)[OF iv] maxCoeff_Max[OF iv] len by (simp add: select_def)
qed

lemma selectionLoop_result:
  assumes "atIteration evaluate inputMesh outputMesh n st" "vertices inputMesh \<noteq> []"
  shows "\<exists>st' n'. selectionLoop evaluate inputMesh n st = Inr st' \<and>
           atIteration evaluate inputMesh outputMesh n' st' \<and> n \<le> n' \<and>
           (n' = maxIter \<or> (\<exists>i pMax. select (solver st') = Inr (i, pMax) \<and> pMax < tolP))"
  using assms(1)
proof (induction "maxIter - n" arbitrary: n st)
  case 0
  then have "n = maxIter" using atIteration_invariant[OF "0.prems"] by simp
  then show ?case using "0.prems" by (subst selectionLoop.simps) auto
next
  case (Suc k)
  then have n: "n < maxIter" by simp
  note inv = atIteration_invariant[OF Suc.prems, THEN conjunct1]
  obtain i pMax where sel: "select (solver st) = Inr (i, pMax)" "i < length (vertices inputMesh)"
    using select_total[OF inv assms(2)] by blast
  have rd: "read_at (vertices inputMesh) i = Inr (vertices inputMesh ! i)" using sel(2) by simp
  show ?case
  proof (cases "pMax < tolP")
    case True
    then have "selectionLoop evaluate inputMesh n st = Inr st"
      using n sel(1) rd by (subst selectionLoop.simps) simp
    then show ?thesis using Suc.prems sel(1) True by blast
  next
    case False
    obtain st1 where st1: "selectCenter evaluate inputMesh n i pMax (vertices inputMesh ! i) st = Inr st1"
      using selectCenter_step[OF inv n sel(1) False] by blast
    have at1: "atIteration evaluate inputMesh outputMesh (Suc n) st1"
      by (rule at_next[OF Suc.prems n sel(1) rd False st1])
    have "k = maxIter - Suc n" using Suc.hyps(2) by simp
    from Suc.hyps(1)[OF this at1]
    obtain st' n' where r: "selectionLoop evaluate inputMesh (Suc n) st1 = Inr st'"
        "atIteration evaluate inputMesh outputMesh n' st'" "Suc n \<le> n'"
        "n' = maxIter \<or> (\<exists>i pMax. select (solver st') = Inr (i, pMax) \<and> pMax < tolP)"
      by blast
    have "selectionLoop evaluate inputMesh n st = Inr st'"
      using n sel(1) rd False st1 r(1) by (subst selectionLoop.simps) simp
    moreover have "n \<le> n'" using r(3) by simp
    ultimately show ?thesis using r(2,4) by blast
  qed
qed

lemma selectionLoop_empty:
  assumes "vertices inputMesh = []"
  shows "selectionLoop evaluate inputMesh 0 (initialSelection evaluate inputMesh outputMesh) = Inl AssertionFailed"
  using assms
  by (subst selectionLoop.simps)
     (simp add: maxIter_def select_def maxCoeff_def initialSelection_def Let_def)

lemma ctor_result:
  assumes "PGreedySolver_ctor evaluate inputMesh outputMesh deadAxis polynomial = Inr s"
  shows "vertices inputMesh \<noteq> [] \<and> polynomial = OFF \<and> length deadAxis \<le> 3 \<and>
         (\<exists>n st E. atIteration evaluate inputMesh outputMesh n st \<and>
            (n = maxIter \<or> (\<exists>i pMax. select (solver st) = Inr (i, pMax) \<and> pMax < tolP)) \<and>
            buildEvaluationMatrix evaluate outputMesh inputMesh (greedyIDs (solver st)) = Inr E \<and>
            s = (solver st)\<lparr>kernel_eval := E\<rparr>)"
proof -
  have pol: "polynomial = OFF"
    using assms by (cases "polynomial = OFF") (simp_all add: PGreedySolver_ctor_def)
  have dead: "length deadAxis \<le> 3"
    using assms pol by (cases "length deadAxis \<le> 3") (simp_all add: PGreedySolver_ctor_def activeAxisOf_def)
  have ne: "vertices inputMesh \<noteq> []"
  proof
    assume "vertices inputMesh = []"
    from selectionLoop_empty[OF this, of evaluate outputMesh] assms pol dead
    show False by (simp add: PGreedySolver_ctor_def activeAxisOf_def)
  qed
  obtain st n where r: "selectionLoop evaluate inputMesh 0 (initialSelection evaluate inputMesh outputMesh) = Inr st"
      "atIteration evaluate inputMesh outputMesh n st"
      "n = maxIter \<or> (\<exists>i pMax. select (solver st) = Inr (i, pMax) \<and> pMax < tolP)"
    using selectionLoop_result[OF at_start ne, of evaluate outputMesh] by blast
  have "\<exists>E. buildEvaluationMatrix evaluate outputMesh inputMesh (greedyIDs (solver st)) = Inr E \<and>
           s = (solver st)\<lparr>kernel_eval := E\<rparr>"
    using assms pol dead r(1)
    by (cases "buildEvaluationMatrix evaluate outputMesh inputMesh (greedyIDs (solver st))")
       (simp_all add: PGreedySolver_ctor_def activeAxisOf_def)
  then show ?thesis using pol dead ne r(2,3) by blast
qed

lemma ctor_total:
  assumes "vertices inputMesh \<noteq> []" "polynomial = OFF" "length deadAxis \<le> 3"
  shows "\<exists>s. PGreedySolver_ctor evaluate inputMesh outputMesh deadAxis polynomial = Inr s"
proof -
  obtain st n where r: "selectionLoop evaluate inputMesh 0 (initialSelection evaluate inputMesh outputMesh) = Inr st"
      "atIteration evaluate inputMesh outputMesh n st"
    using selectionLoop_result[OF at_start assms(1), of evaluate outputMesh] by blast
  note inv = atIteration_invariant[OF r(2), THEN conjunct1]
  have "\<forall>k \<in> set (greedyIDs (solver st)). k < length (vertices inputMesh)"
    using inv unfolding selectionInvariant_def Let_def by auto
  then obtain E where "buildEvaluationMatrix evaluate outputMesh inputMesh (greedyIDs (solver st)) = Inr E"
    using buildEvaluationMatrix_entries by blast
  then show ?thesis using assms r(1) by (simp add: PGreedySolver_ctor_def activeAxisOf_def)
qed

inductive_cases atIteration_0E: "atIteration evaluate inputMesh outputMesh 0 st"

inductive_cases atIteration_SucE: "atIteration evaluate inputMesh outputMesh (Suc n) st"

lemma atIteration_functional:
  assumes "atIteration evaluate inputMesh outputMesh n st" "atIteration evaluate inputMesh outputMesh n st2"
  shows "st = st2"
  using assms
proof (induction arbitrary: st2 rule: atIteration.induct)
  case at_start
  then show ?case by (auto elim: atIteration_0E)
next
  case (at_next n st i pMax x st')
  from at_next.prems obtain st0 i0 pMax0 x0 where
      s0: "atIteration evaluate inputMesh outputMesh n st0"
      "select (solver st0) = Inr (i0, pMax0)" "read_at (vertices inputMesh) i0 = Inr x0"
      "selectCenter evaluate inputMesh n i0 pMax0 x0 st0 = Inr st2"
    by (auto elim: atIteration_SucE)
  have "st = st0" using at_next.IH[OF s0(1)] .
  then show ?case using s0(2,3,4) at_next.hyps(3,4,6) by simp
qed

lemma step_pointwise:
  assumes "atIteration evaluate inputMesh outputMesh n st" "atIteration evaluate inputMesh outputMesh (Suc n) st'"
  shows "vertices inputMesh \<noteq> [] \<and>
         (\<forall>j < length (vertices inputMesh). powerFunction (solver st') ! j \<le> powerFunction (solver st) ! j)"
proof -
  from assms(2) obtain st0 i pMax x where
      s0: "atIteration evaluate inputMesh outputMesh n st0" "n < maxIter"
      "select (solver st0) = Inr (i, pMax)" "read_at (vertices inputMesh) i = Inr x" "\<not> pMax < tolP"
      "selectCenter evaluate inputMesh n i pMax x st0 = Inr st'"
    by (auto elim: atIteration_SucE)
  have eq: "st0 = st" using atIteration_functional[OF s0(1) assms(1)] .
  have x: "x = vertices inputMesh ! i" "i < length (vertices inputMesh)"
    using s0(4) by (auto simp: read_at_def split: if_splits)
  note inv = atIteration_invariant[OF assms(1), THEN conjunct1]
  from selectCenter_step[OF inv s0(2) s0(3)[unfolded eq] s0(5)] s0(6) x eq
  show ?thesis by auto
qed

lemma Max_pointwise:
  fixes xs ys :: "real list"
  assumes "length xs = length ys" "xs \<noteq> []" "\<forall>j < length xs. xs ! j \<le> ys ! j"
  shows "Max (set xs) \<le> Max (set ys)"
proof -
  have "Max (set xs) \<in> set xs" using assms(2) by simp
  then obtain j where j: "j < length xs" "xs ! j = Max (set xs)" by (auto simp: in_set_conv_nth)
  have "xs ! j \<le> ys ! j" using assms(3) j(1) by simp
  also have "ys ! j \<le> Max (set ys)" using j(1) assms(1) by simp
  finally show ?thesis using j(2) by simp
qed

lemma first_iteration:
  assumes "vertices inputMesh \<noteq> []" "\<not> evaluate 0 < tolP"
  shows "\<exists>st'. atIteration evaluate inputMesh outputMesh (Suc 0) st'"
proof -
  let ?st = "initialSelection evaluate inputMesh outputMesh"
  note inv = initial_invariant[of evaluate inputMesh outputMesh]
  obtain i pMax where sel: "select (solver ?st) = Inr (i, pMax)" "i < length (vertices inputMesh)"
      "pMax = Max (set (powerFunction (solver ?st)))"
    using select_total[OF inv assms(1)] by blast
  have "set (powerFunction (solver ?st)) = {evaluate 0}"
    using assms(1) by (auto simp: initialSelection_def Let_def)
  then have big: "\<not> pMax < tolP" using sel(3) assms(2) by simp
  have rd: "read_at (vertices inputMesh) i = Inr (vertices inputMesh ! i)" using sel(2) by simp
  obtain st' where "selectCenter evaluate inputMesh 0 i pMax (vertices inputMesh ! i) ?st = Inr st'"
    using selectCenter_step[OF inv _ sel(1) big] by (auto simp: maxIter_def)
  from at_next[OF at_start _ sel(1) rd big this] show ?thesis by (auto simp: maxIter_def)
qed

lemma ctor_dims:
  assumes "PGreedySolver_ctor evaluate inputMesh outputMesh deadAxis polynomial = Inr s"
  shows "(\<forall>k \<in> set (greedyIDs s). k < length (vertices inputMesh)) \<and>
         length (greedyIDs s) \<le> nrows (cut s) \<and> length (greedyIDs s) \<le> ncols (cut s) \<and>
         nrows (kernel_eval s) = length (greedyIDs s) \<and>
         ncols (kernel_eval s) = length (vertices outputMesh)"
proof -
  from ctor_result[OF assms] obtain n st E where
      r: "atIteration evaluate inputMesh outputMesh n st"
      "buildEvaluationMatrix evaluate outputMesh inputMesh (greedyIDs (solver st)) = Inr E"
      "s = (solver st)\<lparr>kernel_eval := E\<rparr>"
    by blast
  note inv = atIteration_invariant[OF r(1)]
  have ids: "length (greedyIDs (solver st)) = n" "distinct (greedyIDs (solver st))"
      "\<forall>k \<in> set (greedyIDs (solver st)). k < length (vertices inputMesh)"
      "nrows (cut (solver st)) = min (length (vertices inputMesh)) maxIter"
      "ncols (cut (solver st)) = min (length (vertices inputMesh)) maxIter"
    using inv unfolding selectionInvariant_def Let_def by auto
  have nm: "n \<le> length (vertices inputMesh)"
    using distinct_bounded_length[OF ids(2,3)] ids(1) by simp
  have E: "nrows E = length (greedyIDs (solver st))" "ncols E = length (vertices outputMesh)"
    using buildEvaluationMatrix_entries[OF ids(3), of evaluate outputMesh] r(2) by auto
  show ?thesis using r(3) ids nm inv E by simp
qed

text \<open>
  With exact arithmetic: on a non-empty input mesh, with polynomial \<open>OFF\<close> and at most
  three dead-axis flags, the constructor returns; whenever it returns, it has selected
  at most \<open>min(n, maxIter)\<close> centers for \<open>n\<close> input vertices, and either the maximum of
  the power function is below \<open>tolP\<close> or exactly that many centers were selected; and
  the selection loop, at an iteration where the maximum is below \<open>tolP\<close>, returns at
  once with the state unchanged.
\<close>

lemma center_count_exact:
  "maxIter = 1000 \<and> tolP = 1 / 10 ^ 10 \<and>
   (vertices inputMesh \<noteq> [] \<and> polynomial = OFF \<and> length deadAxis \<le> 3 \<longrightarrow>
      (\<exists>s. PGreedySolver_ctor evaluate inputMesh outputMesh deadAxis polynomial = Inr s)) \<and>
   (\<forall>s. PGreedySolver_ctor evaluate inputMesh outputMesh deadAxis polynomial = Inr s \<longrightarrow>
      length (greedyIDs s) \<le> min (length (vertices inputMesh)) maxIter \<and>
      (Max (set (powerFunction s)) < tolP \<or>
       length (greedyIDs s) = min (length (vertices inputMesh)) maxIter)) \<and>
   (\<forall>n st i pMax. n < maxIter \<and> select (solver st) = Inr (i, pMax) \<and>
      i < length (vertices inputMesh) \<and> pMax < tolP \<longrightarrow>
      selectionLoop evaluate inputMesh n st = Inr st)"
proof (intro conjI allI impI)
  show "maxIter = 1000" by (simp add: maxIter_def)
  show "tolP = 1 / 10 ^ 10" by (simp add: tolP_def)
next
  assume "vertices inputMesh \<noteq> [] \<and> polynomial = OFF \<and> length deadAxis \<le> 3"
  then show "\<exists>s. PGreedySolver_ctor evaluate inputMesh outputMesh deadAxis polynomial = Inr s"
    using ctor_total by blast
next
  fix s
  assume c: "PGreedySolver_ctor evaluate inputMesh outputMesh deadAxis polynomial = Inr s"
  from ctor_result[OF c] obtain n st E where
      r: "atIteration evaluate inputMesh outputMesh n st"
      "n = maxIter \<or> (\<exists>i pMax. select (solver st) = Inr (i, pMax) \<and> pMax < tolP)"
      "s = (solver st)\<lparr>kernel_eval := E\<rparr>"
    by blast
  note inv = atIteration_invariant[OF r(1)]
  have ids: "length (greedyIDs (solver st)) = n" "distinct (greedyIDs (solver st))"
      "\<forall>k \<in> set (greedyIDs (solver st)). k < length (vertices inputMesh)"
    using inv unfolding selectionInvariant_def Let_def by auto
  have nm: "n \<le> length (vertices inputMesh)"
    using distinct_bounded_length[OF ids(2,3)] ids(1) by simp
  show "length (greedyIDs s) \<le> min (length (vertices inputMesh)) maxIter"
    using r(3) ids(1) nm inv by simp
  show "Max (set (powerFunction s)) < tolP \<or> length (greedyIDs s) = min (length (vertices inputMesh)) maxIter"
    using r(2)
  proof
    assume "n = maxIter"
    then show ?thesis using r(3) ids(1) nm by simp
  next
    assume "\<exists>i pMax. select (solver st) = Inr (i, pMax) \<and> pMax < tolP"
    then obtain i pMax where "maxCoeff (powerFunction (solver st)) = Inr (i, pMax)" "pMax < tolP"
      by (auto simp: select_def)
    then show ?thesis using maxCoeff_Max r(3) by auto
  qed
next
  fix n i pMax and st :: Selection
  assume "n < maxIter \<and> select (solver st) = Inr (i, pMax) \<and> i < length (vertices inputMesh) \<and> pMax < tolP"
  then show "selectionLoop evaluate inputMesh n st = Inr st"
    by (subst selectionLoop.simps) simp
qed

lemma selectCenter_power:
  fixes evaluate :: "real \<Rightarrow> real" and inputMesh :: Mesh
  defines "m \<equiv> length (vertices inputMesh)"
  assumes inv: "selectionInvariant evaluate inputMesh n st"
    and n: "n < maxIter"
    and sel: "select (solver st) = Inr (i, pMax)"
    and big: "\<not> pMax < tolP"
    and run: "selectCenter evaluate inputMesh n i pMax (vertices inputMesh ! i) st = Inr st'"
    and j: "j < m" "\<not> centerBits st ! j"
  shows "powerFunction (solver st') ! j =
           powerFunction (solver st) ! j -
             ((kernelValue evaluate (vertices inputMesh ! i) (vertices inputMesh ! j) -
                 (\<Sum>k < n. coeff (basisMatrix (solver st)) j k * coeff (basisMatrix (solver st)) i k)) / sqrt pMax)\<^sup>2"
proof -
  let ?s = "solver st" and ?V = "vertices inputMesh"
  let ?B = "basisMatrix (solver st)" and ?p = "powerFunction (solver st)" and ?bits = "centerBits st"
  let ?ids = "greedyIDs (solver st)" and ?W = "min m maxIter"
  have I: "inSize ?s = m" "length ?p = m" "length (kernelVector st) = m" "length ?bits = m"
      "nrows ?B = m" "ncols ?B = ?W" "nrows (cut ?s) = ?W" "ncols (cut ?s) = ?W"
      "length ?ids = n" "distinct ?ids" "set ?ids = {j. j < m \<and> ?bits ! j}"
    using inv unfolding selectionInvariant_def m_def Let_def by blast+
  obtain st2 where st2: "selectCenter evaluate inputMesh n i pMax (?V ! i) st = Inr st2"
      "selectionInvariant evaluate inputMesh (Suc n) st2" "i < m" "i \<notin> set ?ids"
    using selectCenter_step[OF inv n sel big] unfolding m_def by blast
  have nm: "n < m"
  proof -
    have "length (?ids @ [i]) \<le> m"
      by (rule distinct_bounded_length) (use I(10,11) st2(3,4) in auto)
    then show ?thesis using I(9) by simp
  qed
  have nW: "n < ?W" using nm n by simp
  let ?v0 = "map (kernelValue evaluate (?V ! i)) ?V"
  have uk: "updateKernelVector evaluate inputMesh (kernelVector st) (?V ! i) = Inr ?v0"
    by (rule updateKernelVector_map) (use I(3) in \<open>simp add: m_def\<close>)
  let ?nv = "\<lambda>j. (?v0 ! j - (\<Sum>k < n. coeff ?B j k * coeff ?B i k)) / sqrt pMax"
  obtain v1 p1 where nl: "for_loop [0..<m] (newtonStep ?B ?bits i n (sqrt pMax)) (?v0, ?p) = Inr (v1, p1)"
      "length v1 = m" "length p1 = m"
      "\<forall>j < m. v1 ! j = (if ?bits ! j then ?v0 ! j else ?nv j) \<and>
                p1 ! j = (if ?bits ! j then ?p ! j else ?p ! j - ?nv j * ?nv j)"
    using newton_loop[of ?bits m ?v0 ?p ?B i n "sqrt pMax"] I st2(3) nW by (auto simp: m_def)
  have wb: "write_at ?bits i True = Inr (?bits[i := True])" using st2(3) I(4) by simp
  let ?B' = "?B\<lparr>coeff := (\<lambda>r c. if c = n \<and> r < nrows ?B then v1 ! r else coeff ?B r c)\<rparr>"
  have sc: "setCol ?B n v1 = Inr ?B'" using nW I nl(2) by (simp add: setCol_def)
  obtain C' where uc: "updateCut (cut ?s) ?B' n i v1 = Inr C'"
    using nW I st2(3) nl(2) by (simp add: updateCut_def Let_def)
  have "selectCenter evaluate inputMesh n i pMax (?V ! i) st =
          Inr \<lparr>solver = ?s\<lparr>greedyIDs := ?ids @ [i], powerFunction := p1, basisMatrix := ?B', cut := C'\<rparr>,
               kernelVector = v1, centerBits = ?bits[i := True]\<rparr>"
    using uk nl(1) wb sc uc(1) I(1) by (simp add: selectCenter_def Let_def)
  then have "powerFunction (solver st') = p1" using run by auto
  moreover have "p1 ! j = ?p ! j - ?nv j * ?nv j" using nl(4) j by simp
  moreover have "?v0 ! j = kernelValue evaluate (?V ! i) (?V ! j)" using j(1) by (simp add: m_def)
  ultimately show ?thesis by (simp add: power2_eq_square)
qed

text \<open>
  The constructor on the mesh of two vertices: it selects vertex 0, then vertex 1, whose
  power function value is \<open>3/4\<close> after the first selection, and stops.
\<close>

lemma twoVertex_selection:
  "\<exists>st. selectionLoop exampleKernel twoVertexMesh 0 (initialSelection exampleKernel twoVertexMesh outputMesh) = Inr st \<and>
        greedyIDs (solver st) = [0, 1]"
proof -
  let ?K = exampleKernel and ?M = twoVertexMesh
  let ?st0 = "initialSelection ?K ?M outputMesh"
  let ?V = "vertices ?M"
  have m: "length ?V = 2" by (simp add: twoVertexMesh_def)
  have K0: "?K 0 = 1" by (simp add: exampleKernel_def)
  have K1: "kernelValue ?K (?V ! 0) (?V ! Suc 0) = 1 / 2"
    by (simp add: kernelValue_def computeSquaredDifference2_all twoVertexMesh_def exampleKernel_def)
  have it: "(0::nat) < maxIter" "(1::nat) < maxIter" "(2::nat) < maxIter" by (simp_all add: maxIter_def)
  have rd: "read_at ?V 0 = Inr (?V ! 0)" "read_at ?V 1 = Inr (?V ! 1)" using m by simp_all
  note inv0 = initial_invariant[of ?K ?M outputMesh]
  have p0: "powerFunction (solver ?st0) = [1, 1]" "greedyIDs (solver ?st0) = []"
      "centerBits ?st0 = [False, False]"
    by (simp_all add: initialSelection_def Let_def twoVertexMesh_def exampleKernel_def numeral_2_eq_2)
  have sel0: "select (solver ?st0) = Inr (0, 1)"
    by (simp add: select_def maxCoeff_def p0)
  have big0: "\<not> (1::real) < tolP" by (simp add: tolP_def)
  obtain st1 where st1: "selectCenter ?K ?M 0 0 1 (?V ! 0) ?st0 = Inr st1"
      "selectionInvariant ?K ?M (Suc 0) st1"
      "greedyIDs (solver st1) = greedyIDs (solver ?st0) @ [0]"
      "powerFunction (solver st1) ! 0 = 0"
    using selectCenter_step[OF inv0 it(1) sel0 big0] by blast
  have len1: "length (powerFunction (solver st1)) = 2"
    using st1(2) m unfolding selectionInvariant_def Let_def by simp
  have "powerFunction (solver st1) ! 1 = powerFunction (solver ?st0) ! 1 -
          ((kernelValue ?K (?V ! 0) (?V ! 1) -
            (\<Sum>k < 0. coeff (basisMatrix (solver ?st0)) 1 k * coeff (basisMatrix (solver ?st0)) 0 k)) / sqrt 1)\<^sup>2"
    by (rule selectCenter_power[OF inv0 it(1) sel0 big0 st1(1)]) (simp_all add: m p0)
  then have "powerFunction (solver st1) ! 1 = 3 / 4"
    by (simp add: K1 p0 power2_eq_square)
  then have p1: "powerFunction (solver st1) = [0, 3 / 4]"
    using len1 st1(4) by (intro list_of_two) simp_all
  have sel1: "select (solver st1) = Inr (1, 3 / 4)"
    by (simp add: select_def maxCoeff_def p1)
  have big1: "\<not> (3 / 4 :: real) < tolP" by (simp add: tolP_def)
  obtain st2 where st2: "selectCenter ?K ?M (Suc 0) 1 (3 / 4) (?V ! 1) st1 = Inr st2"
      "selectionInvariant ?K ?M (Suc (Suc 0)) st2"
      "greedyIDs (solver st2) = greedyIDs (solver st1) @ [1]"
    using selectCenter_step[OF st1(2) _ sel1 big1] it(2) by auto
  have ids2: "greedyIDs (solver st2) = [0, 1]" using st2(3) st1(3) p0(2) by simp
  have I2: "length (powerFunction (solver st2)) = 2"
      "set (greedyIDs (solver st2)) = {j. j < 2 \<and> centerBits st2 ! j}"
      "\<forall>j < 2. powerFunction (solver st2) ! j =
         (if centerBits st2 ! j then 0
          else ?K 0 - (\<Sum>k < Suc (Suc 0). coeff (basisMatrix (solver st2)) j k * coeff (basisMatrix (solver st2)) j k))"
    using st2(2) m unfolding selectionInvariant_def Let_def by simp_all
  have "centerBits st2 ! 0" "centerBits st2 ! 1" using I2(2) ids2 by auto
  then have "powerFunction (solver st2) ! 0 = 0" "powerFunction (solver st2) ! 1 = 0"
    using I2(3) by simp_all
  then have p2: "powerFunction (solver st2) = [0, 0]"
    using I2(1) by (intro list_of_two) simp_all
  have sel2: "select (solver st2) = Inr (0, 0)"
    by (simp add: select_def maxCoeff_def p2)
  have l2: "selectionLoop ?K ?M (Suc (Suc 0)) st2 = Inr st2"
    using it(3) sel2 rd(1) tolP_pos by (subst selectionLoop.simps) (simp add: numeral_2_eq_2)
  have l1: "selectionLoop ?K ?M 1 st1 = Inr st2"
    using it(2) sel1 rd(2) big1 st2(1) l2 by (subst selectionLoop.simps) simp
  have l0: "selectionLoop ?K ?M 0 ?st0 = Inr st2"
    using it(1) sel0 rd(1) big0 st1(1) l1 by (subst selectionLoop.simps) simp
  show ?thesis using l0 ids2 by blast
qed

lemma twoVertex_ctor:
  assumes "length deadAxis \<le> 3"
  shows "\<exists>s E. PGreedySolver_ctor exampleKernel twoVertexMesh twoVertexMesh deadAxis OFF = Inr s \<and>
           greedyIDs s = [0, 1] \<and>
           buildEvaluationMatrix exampleKernel twoVertexMesh twoVertexMesh [0, 1] = Inr E \<and>
           kernel_eval s = E"
proof -
  obtain st where st: "selectionLoop exampleKernel twoVertexMesh 0
        (initialSelection exampleKernel twoVertexMesh twoVertexMesh) = Inr st"
      "greedyIDs (solver st) = [0, 1]"
    using twoVertex_selection by blast
  have "\<forall>k \<in> set [0, 1 :: nat]. k < length (vertices twoVertexMesh)"
    by (simp add: twoVertexMesh_def)
  then obtain E where E: "buildEvaluationMatrix exampleKernel twoVertexMesh twoVertexMesh [0, 1] = Inr E"
    using buildEvaluationMatrix_entries by blast
  have "PGreedySolver_ctor exampleKernel twoVertexMesh twoVertexMesh deadAxis OFF =
          Inr ((solver st)\<lparr>kernel_eval := E\<rparr>)"
    using assms st E by (simp add: PGreedySolver_ctor_def activeAxisOf_def)
  then show ?thesis using st(2) E by simp
qed

text \<open>
  The first iteration on the mesh of one vertex with \<open>\<phi>(0) = 10\<^sup>7\<close>, in exact arithmetic.
\<close>

lemma list_of_one:
  assumes "length xs = 1" "xs ! 0 = a"
  shows "xs = [a]"
  using assms by (cases xs) auto

lemma exact_first_iteration:
  "\<exists>st. atIteration scaledKernel singleVertexMesh singleVertexMesh (Suc 0) st \<and>
        greedyIDs (solver st) = [0] \<and> centerBits st = [True] \<and>
        kernelVector st = [sqrt (10 ^ 7)] \<and> powerFunction (solver st) = [0]"
proof -
  let ?K = scaledKernel and ?M = singleVertexMesh
  let ?st0 = "initialSelection ?K ?M ?M"
  let ?V = "vertices ?M"
  have m: "length ?V = 1" by (simp add: singleVertexMesh_def)
  have it: "(0::nat) < maxIter" by (simp add: maxIter_def)
  have rd: "read_at ?V 0 = Inr (?V ! 0)" using m by simp
  note inv0 = initial_invariant[of ?K ?M ?M]
  have p0: "powerFunction (solver ?st0) = [10 ^ 7]" "greedyIDs (solver ?st0) = []"
    by (simp_all add: initialSelection_def Let_def singleVertexMesh_def scaledKernel_def)
  have sel0: "select (solver ?st0) = Inr (0, 10 ^ 7)"
    by (simp add: select_def maxCoeff_def p0)
  have big0: "\<not> (10 ^ 7 :: real) < tolP" by (simp add: tolP_def)
  obtain st1 where st1: "selectCenter ?K ?M 0 0 (10 ^ 7) (?V ! 0) ?st0 = Inr st1"
      "selectionInvariant ?K ?M (Suc 0) st1"
      "greedyIDs (solver st1) = greedyIDs (solver ?st0) @ [0]"
      "kernelVector st1 ! 0 = sqrt (10 ^ 7)"
      "powerFunction (solver st1) ! 0 = 0"
    using selectCenter_step[OF inv0 it sel0 big0] by blast
  have at1: "atIteration ?K ?M ?M (Suc 0) st1"
    by (rule at_next[OF at_start it sel0 rd big0 st1(1)])
  have I1: "length (powerFunction (solver st1)) = 1" "length (kernelVector st1) = 1"
      "length (centerBits st1) = 1"
      "set (greedyIDs (solver st1)) = {j. j < 1 \<and> centerBits st1 ! j}"
    using st1(2) m unfolding selectionInvariant_def Let_def by simp_all
  have ids: "greedyIDs (solver st1) = [0]" using st1(3) p0(2) by simp
  have "centerBits st1 ! 0" using I1(4) ids by auto
  then have bits: "centerBits st1 = [True]" using I1(3) by (intro list_of_one) simp_all
  have kv: "kernelVector st1 = [sqrt (10 ^ 7)]" using I1(2) st1(4) by (intro list_of_one) simp_all
  have p1: "powerFunction (solver st1) = [0]" using I1(1) st1(5) by (intro list_of_one) simp_all
  show ?thesis using at1 ids bits kv p1 by blast
qed

section \<open>P-Greedy: selection, solve and dead axes\<close>

text \<open>
  Claim C5. The bound of \<open>K = min(n, maxIter)\<close> centers rests on the power function being
  zero at every selected center: \<^verbatim>\<open>select\<close> takes the maximum over all entries, and the
  statement that would take a selected entry out of the search is commented out there.
  In exact arithmetic the entry is zero (\<open>center_count_exact\<close>). In double precision
  \<^verbatim>\<open>_powerFunction(j) -= v(j) * v(j)\<close> can leave a positive rest. For one input vertex
  and a basis function with \<open>\<phi>(0) = 10\<^sup>7\<close> the first iteration selects index 0 and,
  each operation rounded to the nearest double, leaves \<open>p(0) = 2\<^sup>-\<^sup>2\<^sup>9\<close>, which is not below
  \<open>tolP\<close>, where exact arithmetic leaves 0; the distances of the rounded values to the
  exact ones are below half a unit in the last place. From that state the loop
  selects index 0 again, a second center for \<open>K = 1\<close>, and the assignment to column 1 of
  the basis matrix, which has one column, fails.
\<close>

theorem pgreedy_center_reselected:
  "(\<exists>st. atIteration scaledKernel singleVertexMesh singleVertexMesh 1 st \<and>
         greedyIDs (solver st) = [0] \<and> centerBits st = [True] \<and>
         kernelVector st = [sqrt (scaledKernel 0)] \<and> powerFunction (solver st) = [0]) \<and>
   (roundedSqrtP - 1 / 2 ^ 42)\<^sup>2 < scaledKernel 0 \<and> scaledKernel 0 < (roundedSqrtP + 1 / 2 ^ 42)\<^sup>2 \<and>
   \<bar>scaledKernel 0 / roundedSqrtP - roundedV\<bar> < 1 / 2 ^ 42 \<and>
   \<bar>roundedV * roundedV - roundedSquare\<bar> < 1 / 2 ^ 30 \<and>
   scaledKernel 0 - roundedSquare = 1 / 2 ^ 29 \<and>
   greedyIDs (solver roundedSelection) = [0] \<and> centerBits roundedSelection = [True] \<and>
   kernelVector roundedSelection = [roundedV] \<and>
   coeff (basisMatrix (solver roundedSelection)) 0 0 = roundedV \<and>
   \<bar>1 / roundedV - roundedCut\<bar> < 1 / 2 ^ 65 \<and>
   coeff (cut (solver roundedSelection)) 0 0 = roundedCut \<and>
   powerFunction (solver roundedSelection) = [scaledKernel 0 - roundedSquare] \<and>
   select (solver roundedSelection) = Inr (0, 1 / 2 ^ 29) \<and> \<not> 1 / 2 ^ 29 < tolP \<and>
   length (greedyIDs (solver roundedSelection) @ [0]) > min (length (vertices singleVertexMesh)) maxIter \<and>
   selectionLoop scaledKernel singleVertexMesh 1 roundedSelection = Inl AssertionFailed"
proof -
  have K0: "scaledKernel 0 = 10 ^ 7" by (simp add: scaledKernel_def)
  have a: "\<exists>st. atIteration scaledKernel singleVertexMesh singleVertexMesh 1 st \<and>
         greedyIDs (solver st) = [0] \<and> centerBits st = [True] \<and>
         kernelVector st = [sqrt (scaledKernel 0)] \<and> powerFunction (solver st) = [0]"
    using exact_first_iteration by (simp only: K0 One_nat_def)
  have b: "(roundedSqrtP - 1 / 2 ^ 42)\<^sup>2 < scaledKernel 0" "scaledKernel 0 < (roundedSqrtP + 1 / 2 ^ 42)\<^sup>2"
    by (simp_all add: K0 roundedSqrtP_def power2_eq_square field_simps)
  have c: "\<bar>scaledKernel 0 / roundedSqrtP - roundedV\<bar> < 1 / 2 ^ 42"
    by (simp add: K0 roundedSqrtP_def roundedV_def abs_if field_simps)
  have d: "\<bar>roundedV * roundedV - roundedSquare\<bar> < 1 / 2 ^ 30"
    by (simp add: roundedSquare_def roundedV_def abs_if field_simps)
  have e: "scaledKernel 0 - roundedSquare = 1 / 2 ^ 29"
    unfolding roundedSquare_def K0 by simp
  have f: "greedyIDs (solver roundedSelection) = [0]" "centerBits roundedSelection = [True]"
      "kernelVector roundedSelection = [roundedV]"
      "powerFunction (solver roundedSelection) = [1 / 2 ^ 29]"
    by (simp_all add: roundedSelection_def)
  have k: "coeff (basisMatrix (solver roundedSelection)) 0 0 = roundedV"
      "coeff (cut (solver roundedSelection)) 0 0 = roundedCut"
    by (simp_all add: roundedSelection_def)
  have l: "\<bar>1 / roundedV - roundedCut\<bar> < 1 / 2 ^ 65"
    by (simp add: roundedCut_def roundedV_def abs_if field_simps)
  have g: "select (solver roundedSelection) = Inr (0, 1 / 2 ^ 29)"
    by (simp add: select_def maxCoeff_def f)
  have h: "\<not> (1 / 2 ^ 29 :: real) < tolP" by (simp add: tolP_def)
  have i: "length (greedyIDs (solver roundedSelection) @ [0]) > min (length (vertices singleVertexMesh)) maxIter"
    by (simp add: f singleVertexMesh_def)
  have "selectCenter scaledKernel singleVertexMesh 1 0 (1 / 2 ^ 29) (vertices singleVertexMesh ! 0) roundedSelection
          = Inl AssertionFailed"
    by (simp add: selectCenter_def Let_def roundedSelection_def singleVertexMesh_def updateKernelVector_def
        newtonStep_def setCol_def andThen_def read_at_def write_at_def)
  then have j: "selectionLoop scaledKernel singleVertexMesh 1 roundedSelection = Inl AssertionFailed"
    using g h by (subst selectionLoop.simps) (simp add: maxIter_def singleVertexMesh_def)
  show ?thesis
    using a b c d e f(1,2,3) g h i j k l by (simp only: f(4) simp_thms)
qed

text \<open>
  Claim C6. Between any iteration of the selection loop and any later one, the maximum
  entry of the power function does not increase; in fact no entry does. The power
  function is set to \<open>\<phi>(0)\<close> once, before the loop, and an iteration only subtracts
  squares \<open>v(j) * v(j)\<close> from entries.
\<close>

theorem power_function_max_nonincreasing:
  assumes "atIteration evaluate inputMesh outputMesh n st"
    and "atIteration evaluate inputMesh outputMesh n' st'"
    and "n \<le> n'"
  shows "Max (set (powerFunction (solver st'))) \<le> Max (set (powerFunction (solver st))) \<and>
         (\<forall>j < length (vertices inputMesh). powerFunction (solver st') ! j \<le> powerFunction (solver st) ! j)"
  using assms(3,2)
proof (induction arbitrary: st' rule: dec_induct)
  case base
  then have "st' = st" using atIteration_functional assms(1) by blast
  then show ?case by simp
next
  case (step k)
  from step.prems obtain stk where stk: "atIteration evaluate inputMesh outputMesh k stk"
    by (auto elim: atIteration_SucE)
  note IH = step.IH[OF stk]
  note sp = step_pointwise[OF stk step.prems]
  have len: "length (powerFunction (solver st')) = length (vertices inputMesh)"
      "length (powerFunction (solver stk)) = length (vertices inputMesh)"
    using atIteration_invariant[OF step.prems] atIteration_invariant[OF stk]
    unfolding selectionInvariant_def Let_def by auto
  have "Max (set (powerFunction (solver st'))) \<le> Max (set (powerFunction (solver stk)))"
    by (rule Max_pointwise) (use len sp in auto)
  then show ?case using IH sp by fastforce
qed

theorem power_function_max_nonincreasing_witness:
  "\<exists>st st'. atIteration exampleKernel singleVertexMesh singleVertexMesh 0 st \<and>
     atIteration exampleKernel singleVertexMesh singleVertexMesh (Suc 0) st' \<and>
     Max (set (powerFunction (solver st'))) \<le> Max (set (powerFunction (solver st)))"
proof -
  have "vertices singleVertexMesh \<noteq> []" by (simp add: singleVertexMesh_def)
  moreover have "\<not> exampleKernel 0 < tolP" by (simp add: exampleKernel_def tolP_def)
  ultimately obtain st' where st': "atIteration exampleKernel singleVertexMesh singleVertexMesh (Suc 0) st'"
    using first_iteration by blast
  from power_function_max_nonincreasing[OF at_start st'] st' at_start show ?thesis by blast
qed

text \<open>
  Claim C7. For a solver whose selected indices lie inside the input data vector and
  whose matrices have the sizes the constructor gives them, \<open>solveConsistent\<close> returns
  \<open>E\<^sup>T (L\<^sup>T (L y))\<close>: \<open>y\<close> is the input data at the selected indices in selection order,
  \<open>L\<close> the lower triangle of the leading \<open>|greedyIDs|\<close> rows and columns of \<open>_cut\<close>, \<open>E\<close>
  the stored evaluation matrix; the products are spelled out as sums.
\<close>

theorem solveConsistent_formula:
  fixes s :: PGreedySolver
  defines "n \<equiv> length (greedyIDs s)"
  defines "L \<equiv> (\<lambda>r c. if c \<le> r then coeff (cut s) r c else 0)"
  defines "E \<equiv> coeff (kernel_eval s)"
  assumes ids: "\<forall>k \<in> set (greedyIDs s). k < length inputData"
    and dims: "n \<le> nrows (cut s)" "n \<le> ncols (cut s)" "nrows (kernel_eval s) = n"
  shows "\<exists>prediction. solveConsistent s inputData polynomial = Inr prediction \<and>
           length prediction = ncols (kernel_eval s) \<and>
           (\<forall>j < ncols (kernel_eval s).
              prediction ! j =
                (\<Sum>k < n. E k j * (\<Sum>m < n. L m k * (\<Sum>c < n. L m c * inputData ! (greedyIDs s ! c)))))"
proof -
  let ?y = "map (\<lambda>k. inputData ! k) (greedyIDs s)"
  let ?C = "\<lparr>nrows = n, ncols = n, coeff = (\<lambda>i j. coeff (cut s) (0 + i) (0 + j))\<rparr>"
  have y: "indexed inputData (greedyIDs s) = Inr ?y" using ids by (simp add: indexed_def)
  have C: "block (cut s) 0 0 n n = Inr ?C" using dims by (simp add: block_def)
  have TL: "coeff (triangularLower ?C) r c = L r c" for r c
    by (simp add: triangularLower_def L_def)
  obtain Ly where Ly: "matVec (triangularLower ?C) ?y = Inr Ly" "length Ly = n"
      "\<forall>i < n. Ly ! i = (\<Sum>c < n. L i c * ?y ! c)"
    using matVec_nth[of "triangularLower ?C" ?y] TL by (auto simp: triangularLower_def n_def)
  obtain al where al: "matVec (transposeM (triangularLower ?C)) Ly = Inr al" "length al = n"
      "\<forall>k < n. al ! k = (\<Sum>m < n. L m k * Ly ! m)"
    using matVec_nth[of "transposeM (triangularLower ?C)" Ly] Ly(2) TL
    by (auto simp: transposeM_def triangularLower_def)
  obtain pr where pr: "matVec (transposeM (kernel_eval s)) al = Inr pr" "length pr = ncols (kernel_eval s)"
      "\<forall>j < ncols (kernel_eval s). pr ! j = (\<Sum>k < n. E k j * al ! k)"
    using matVec_nth[of "transposeM (kernel_eval s)" al] al(2) dims(3)
    by (auto simp: transposeM_def E_def)
  have sc: "solveConsistent s inputData polynomial = Inr pr"
    using y C Ly(1) al(1) pr(1) by (simp add: solveConsistent_def n_def[symmetric] Let_def)
  have "pr ! j = (\<Sum>k < n. E k j * (\<Sum>m < n. L m k * (\<Sum>c < n. L m c * inputData ! (greedyIDs s ! c))))"
    if "j < ncols (kernel_eval s)" for j
  proof -
    have "pr ! j = (\<Sum>k < n. E k j * al ! k)" using pr(3) that by simp
    also have "\<dots> = (\<Sum>k < n. E k j * (\<Sum>m < n. L m k * Ly ! m))"
      by (rule sum.cong) (use al(3) in auto)
    also have "\<dots> = (\<Sum>k < n. E k j * (\<Sum>m < n. L m k * (\<Sum>c < n. L m c * ?y ! c)))"
      by (intro sum.cong refl arg_cong2[where f = "(*)"]) (use Ly(3) in auto)
    also have "\<dots> = (\<Sum>k < n. E k j * (\<Sum>m < n. L m k * (\<Sum>c < n. L m c * inputData ! (greedyIDs s ! c))))"
      by (intro sum.cong refl arg_cong2[where f = "(*)"]) (simp add: n_def)
    finally show ?thesis .
  qed
  then show ?thesis using sc pr(2) by blast
qed

theorem solveConsistent_formula_witness:
  "(\<exists>prediction. solveConsistent exampleSolver [5] OFF = Inr prediction \<and> prediction = [60]) \<and>
   (\<exists>s prediction.
      PGreedySolver_ctor exampleKernel singleVertexMesh singleVertexMesh [False, False, False] OFF = Inr s \<and>
      solveConsistent s [5] OFF = Inr prediction \<and> length prediction = 1)"
proof
  obtain prediction where p: "solveConsistent exampleSolver [5] OFF = Inr prediction"
      "length prediction = ncols (kernel_eval exampleSolver)"
      "\<forall>j < ncols (kernel_eval exampleSolver).
              prediction ! j =
                (\<Sum>k < length (greedyIDs exampleSolver). coeff (kernel_eval exampleSolver) k j *
                   (\<Sum>m < length (greedyIDs exampleSolver).
                      (if k \<le> m then coeff (cut exampleSolver) m k else 0) *
                      (\<Sum>c < length (greedyIDs exampleSolver).
                         (if c \<le> m then coeff (cut exampleSolver) m c else 0) *
                         [5] ! (greedyIDs exampleSolver ! c))))"
    using solveConsistent_formula[of exampleSolver "[5]" OFF]
    by (auto simp: exampleSolver_def)
  have "length prediction = 1" "prediction ! 0 = 60"
    using p(2,3) by (simp_all add: exampleSolver_def)
  then have "prediction = [60]"
    by (cases prediction) auto
  then show "\<exists>prediction. solveConsistent exampleSolver [5] OFF = Inr prediction \<and> prediction = [60]"
    using p(1) by blast
  have "vertices singleVertexMesh \<noteq> []" by (simp add: singleVertexMesh_def)
  then obtain s where
    s: "PGreedySolver_ctor exampleKernel singleVertexMesh singleVertexMesh [False, False, False] OFF = Inr s"
    using ctor_total[of singleVertexMesh OFF "[False, False, False]"] by auto
  note d = ctor_dims[OF s]
  have "\<forall>k \<in> set (greedyIDs s). k < length [5::real]"
    using d by (simp add: singleVertexMesh_def)
  from solveConsistent_formula[OF this, of OFF] d
  obtain prediction where "solveConsistent s [5] OFF = Inr prediction" "length prediction = ncols (kernel_eval s)"
    by auto
  then show "\<exists>s prediction.
      PGreedySolver_ctor exampleKernel singleVertexMesh singleVertexMesh [False, False, False] OFF = Inr s \<and>
      solveConsistent s [5] OFF = Inr prediction \<and> length prediction = 1"
    using s d by (auto simp: singleVertexMesh_def)
qed

text \<open>
  Claim C8. For any two dead-axis arguments of at most three flags the constructor
  gives the same result (selected centers, triangular factor, evaluation matrix and
  all) on the same meshes and basis function; every kernel value is the basis function
  at the square root of the sum of the squared differences of all three coordinates,
  both in the kernel vector of the selection and in the evaluation matrix.
\<close>

theorem dead_axis_independence:
  assumes "length deadAxis1 \<le> 3" "length deadAxis2 \<le> 3"
  shows "PGreedySolver_ctor evaluate inputMesh outputMesh deadAxis1 polynomial =
           PGreedySolver_ctor evaluate inputMesh outputMesh deadAxis2 polynomial \<and>
         kernelValue evaluate \<lparr>getID = a, rawCoords = (x0, x1, x2)\<rparr> \<lparr>getID = b, rawCoords = (y0, y1, y2)\<rparr> =
           evaluate (sqrt ((x0 - y0)\<^sup>2 + (x1 - y1)\<^sup>2 + (x2 - y2)\<^sup>2)) \<and>
         (length kv = length (vertices inputMesh) \<longrightarrow>
            updateKernelVector evaluate inputMesh kv x =
              Inr (map (kernelValue evaluate x) (vertices inputMesh))) \<and>
         ((\<forall>k \<in> set ids. k < length (vertices inputMesh)) \<longrightarrow>
            (\<exists>E. buildEvaluationMatrix evaluate outputMesh inputMesh ids = Inr E \<and>
               (\<forall>i < length ids. \<forall>j < length (vertices outputMesh).
                  coeff E i j = kernelValue evaluate (vertices inputMesh ! (ids ! i)) (vertices outputMesh ! j))))"
proof (intro conjI impI)
  obtain a1 a2 where "activeAxisOf deadAxis1 = Inr a1" "activeAxisOf deadAxis2 = Inr a2"
    using assms activeAxisOf_ok by blast
  then show "PGreedySolver_ctor evaluate inputMesh outputMesh deadAxis1 polynomial =
           PGreedySolver_ctor evaluate inputMesh outputMesh deadAxis2 polynomial"
    by (simp add: PGreedySolver_ctor_def)
  show "kernelValue evaluate \<lparr>getID = a, rawCoords = (x0, x1, x2)\<rparr> \<lparr>getID = b, rawCoords = (y0, y1, y2)\<rparr> =
           evaluate (sqrt ((x0 - y0)\<^sup>2 + (x1 - y1)\<^sup>2 + (x2 - y2)\<^sup>2))"
    by (simp add: kernelValue_def computeSquaredDifference2_all)
next
  assume "length kv = length (vertices inputMesh)"
  then show "updateKernelVector evaluate inputMesh kv x = Inr (map (kernelValue evaluate x) (vertices inputMesh))"
    by (rule updateKernelVector_map)
next
  assume "\<forall>k \<in> set ids. k < length (vertices inputMesh)"
  then show "\<exists>E. buildEvaluationMatrix evaluate outputMesh inputMesh ids = Inr E \<and>
               (\<forall>i < length ids. \<forall>j < length (vertices outputMesh).
                  coeff E i j = kernelValue evaluate (vertices inputMesh ! (ids ! i)) (vertices outputMesh ! j))"
    using buildEvaluationMatrix_entries[of ids inputMesh evaluate outputMesh] by blast
qed

theorem dead_axis_independence_witness:
  "\<exists>s E. PGreedySolver_ctor exampleKernel twoVertexMesh twoVertexMesh [False, False, True] OFF = Inr s \<and>
          PGreedySolver_ctor exampleKernel twoVertexMesh twoVertexMesh [False, False, False] OFF = Inr s \<and>
          greedyIDs s = [0, 1] \<and> kernel_eval s = E \<and>
          kernelValue exampleKernel \<lparr>getID = 0, rawCoords = (0, 0, 0)\<rparr> \<lparr>getID = 1, rawCoords = (0, 0, 1)\<rparr> = 1 / 2 \<and>
          updateKernelVector exampleKernel twoVertexMesh [0, 0] \<lparr>getID = 0, rawCoords = (0, 0, 0)\<rparr> =
            Inr [1, 1 / 2] \<and>
          buildEvaluationMatrix exampleKernel twoVertexMesh twoVertexMesh [0, 1] = Inr E \<and>
          coeff E 0 0 = 1 \<and> coeff E 0 1 = 1 / 2 \<and> coeff E 1 0 = 1 / 2 \<and> coeff E 1 1 = 1"
proof -
  let ?v0 = "\<lparr>getID = 0, rawCoords = (0, 0, 0)\<rparr> :: Vertex"
  let ?v1 = "\<lparr>getID = 1, rawCoords = (0, 0, 1)\<rparr> :: Vertex"
  have V: "vertices twoVertexMesh = [?v0, ?v1]" by (simp add: twoVertexMesh_def)
  have d: "length [False, False, True] \<le> 3" "length [False, False, False] \<le> 3" by simp_all
  obtain s E where s: "PGreedySolver_ctor exampleKernel twoVertexMesh twoVertexMesh [False, False, True] OFF = Inr s"
      "greedyIDs s = [0, 1]"
      "buildEvaluationMatrix exampleKernel twoVertexMesh twoVertexMesh [0, 1] = Inr E" "kernel_eval s = E"
    using twoVertex_ctor[OF d(1)] by blast
  note T = dead_axis_independence[OF d, where evaluate = exampleKernel and inputMesh = twoVertexMesh
      and outputMesh = twoVertexMesh and polynomial = OFF and kv = "[0, 0]" and x = ?v0 and ids = "[0, 1]"]
  have same: "PGreedySolver_ctor exampleKernel twoVertexMesh twoVertexMesh [False, False, False] OFF = Inr s"
    using T[THEN conjunct1] s(1) by simp
  have K0: "exampleKernel 0 = 1" by (simp add: exampleKernel_def)
  have k01: "kernelValue exampleKernel ?v0 ?v1 = 1 / 2"
    using T[where a = 0 and b = 1 and ?x0.0 = 0 and ?x1.0 = 0 and ?x2.0 = 0 and ?y0.0 = 0 and ?y1.0 = 0 and ?y2.0 = 1,
            THEN conjunct2, THEN conjunct1]
    by (simp add: exampleKernel_def)
  have k10: "kernelValue exampleKernel ?v1 ?v0 = 1 / 2"
    using T[where a = 1 and b = 0 and ?x0.0 = 0 and ?x1.0 = 0 and ?x2.0 = 1 and ?y0.0 = 0 and ?y1.0 = 0 and ?y2.0 = 0,
            THEN conjunct2, THEN conjunct1]
    by (simp add: exampleKernel_def)
  have "length [0, 0 :: real] = length (vertices twoVertexMesh)" by (simp add: V)
  from T[THEN conjunct2, THEN conjunct2, THEN conjunct1, THEN mp, OF this]
  have kv: "updateKernelVector exampleKernel twoVertexMesh [0, 0] ?v0 = Inr [1, 1 / 2]"
    by (simp add: V K0 k01[unfolded One_nat_def])
  have "\<forall>k \<in> set [0, 1 :: nat]. k < length (vertices twoVertexMesh)" by (simp add: V)
  from T[THEN conjunct2, THEN conjunct2, THEN conjunct2, THEN mp, OF this] s(3)
  have ent: "\<forall>i < length [0, 1 :: nat]. \<forall>j < length (vertices twoVertexMesh).
          coeff E i j = kernelValue exampleKernel (vertices twoVertexMesh ! ([0, 1] ! i)) (vertices twoVertexMesh ! j)"
    by auto
  have z: "(0::nat) < length [0, 1 :: nat]" "(1::nat) < length [0, 1 :: nat]"
      "(0::nat) < length (vertices twoVertexMesh)" "(1::nat) < length (vertices twoVertexMesh)"
    by (simp_all add: V)
  have e: "coeff E 0 0 = 1" "coeff E 0 1 = 1 / 2" "coeff E 1 0 = 1 / 2" "coeff E 1 1 = 1"
    using ent[rule_format, OF z(1) z(3)] ent[rule_format, OF z(1) z(4)]
          ent[rule_format, OF z(2) z(3)] ent[rule_format, OF z(2) z(4)]
    by (simp_all add: V K0 k01[unfolded One_nat_def] k10[unfolded One_nat_def])
  show ?thesis using s same k01 kv e by blast
qed

text \<open>
  Claim C9. Whatever the input data vector and the polynomial argument,
  \<^verbatim>\<open>PGreedySolver::solveConservative\<close> fails its unconditional assertion and returns no
  computed result.
\<close>

theorem solveConservative_aborts:
  "solveConservative s inputData polynomial = Inl AssertionFailed"
  by (simp add: solveConservative_def)



end
